theory Spec2Isabelle
  imports Complex_Main "HOL-Library.AList" "HOL-Library.Sublist"
begin

section \<open>The tag tree\<close>

text \<open>
  The parser and the formatter work on a tag tree built by the HTML library. An element
  carries its tag name, its attributes and its ordered contents (elements and strings);
  \<open>nid\<close> stands for the identity of the element object, which tells one element from
  another with the same markup when the program removes an element in place. A string
  leaf has no \<open>contents\<close> attribute.
\<close>

datatype node =
    Tag (nid: nat) (name: string) (attrs: "(string \<times> string) list") (contents: "node list")
  | NavigableString string

datatype error =
    UnboundLocalError
  | KeyError
  | AttributeError
  | RecursionError
  | UnsupportedPattern

record config =
  STRATEGY :: "string option"
  CUSTOM_COEFF :: rat
  FORCED :: bool
  MAX_LENGTH :: int

fun is_tag :: "node \<Rightarrow> bool" where
  "is_tag (Tag i n a cs) = True"
| "is_tag (NavigableString s) = False"

text \<open>\<open>node.contents\<close>, empty for a leaf without that attribute.\<close>

fun contents_of :: "node \<Rightarrow> node list" where
  "contents_of (Tag i n a cs) = cs"
| "contents_of (NavigableString s) = []"

fun name_of :: "node \<Rightarrow> string" where
  "name_of (Tag i n a cs) = n"
| "name_of (NavigableString s) = []"

fun attrs_of :: "node \<Rightarrow> (string \<times> string) list" where
  "attrs_of (Tag i n a cs) = a"
| "attrs_of (NavigableString s) = []"

fun set_contents :: "node \<Rightarrow> node list \<Rightarrow> node" where
  "set_contents (Tag i n a cs) cs' = Tag i n a cs'"
| "set_contents (NavigableString s) cs' = NavigableString s"

text \<open>\<open>find_all(True, recursive=False)\<close>: the element children, in document order.\<close>

definition find_all_direct :: "node \<Rightarrow> node list" where
  "find_all_direct nd = filter is_tag (contents_of nd)"

text \<open>All proper descendants in document order, and \<open>find_all(tag)\<close> over them.\<close>

fun descendants :: "node \<Rightarrow> node list" where
  "descendants (NavigableString s) = []"
| "descendants (Tag i n a cs) = concat (map (\<lambda>c. c # descendants c) cs)"

definition find_all :: "string \<Rightarrow> node \<Rightarrow> node list" where
  "find_all tg nd = filter (\<lambda>d. is_tag d \<and> name_of d = tg) (descendants nd)"

text \<open>\<open>node.text\<close>: the strings below the node, concatenated.\<close>

fun text_of :: "node \<Rightarrow> string" where
  "text_of (NavigableString s) = s"
| "text_of (Tag i n a cs) = concat (map text_of cs)"

section \<open>Parser\<close>

text \<open>\<open>max\<close> of a list of depths; the program only calls it on a non-empty list.\<close>

fun max_list :: "nat list \<Rightarrow> nat" where
  "max_list [] = 0"
| "max_list (x # xs) = max x (max_list xs)"

fun calc_depth :: "node \<Rightarrow> nat" where
  "calc_depth (NavigableString s) = 0"
| "calc_depth (Tag i n a cs) =
     (if cs \<noteq> [] then max_list (map calc_depth cs) + 1 else 0)"

text \<open>
  An element used as a dictionary key is hashed and compared by its markup: name,
  attributes and contents, not the identity of the object. \<open>markup\<close> forgets the
  identities.
\<close>

fun markup :: "node \<Rightarrow> node" where
  "markup (Tag i n a cs) = Tag 0 n a (map markup cs)"
| "markup (NavigableString s) = NavigableString s"

text \<open>
  \<open>node_density.update({node: density})\<close> on the dictionary in insertion order: a key with
  the same markup keeps its place and its key object, and takes the new value.
\<close>

fun dict_update :: "node \<Rightarrow> nat \<Rightarrow> (node \<times> nat) list \<Rightarrow> (node \<times> nat) list" where
  "dict_update nd d [] = [(nd, d)]"
| "dict_update nd d ((k, v) # dens) =
     (if markup k = markup nd then (k, d) # dens else (k, v) # dict_update nd d dens)"

text \<open>
  \<open>_calc_density\<close>: the dictionary from node to depth. Siblings with the same markup
  share one entry, whose key is the first of them.
\<close>

definition calc_density :: "node list \<Rightarrow> (node \<times> nat) list" where
  "calc_density nodes = foldl (\<lambda>node_density nd. dict_update nd (calc_depth nd) node_density) [] nodes"

text \<open>A \<open>for\<close> loop whose body may raise: the first error ends the loop.\<close>

fun for_each :: "('a \<Rightarrow> error + 'b) \<Rightarrow> 'a list \<Rightarrow> error + 'b list" where
  "for_each f [] = Inr []"
| "for_each f (x # xs) =
     (case f x of
        Inl e \<Rightarrow> Inl e
      | Inr y \<Rightarrow> (case for_each f xs of Inl e \<Rightarrow> Inl e | Inr ys \<Rightarrow> Inr (y # ys)))"

text \<open>
  The body of the main loop of \<open>main_content\<close> for one key of the level's density
  dictionary. The result is \<open>Some node\<close> when the node stays and \<open>None\<close> when it is
  decomposed. \<open>avg\<close> is \<open>None\<close> while the local variable is unbound, which is the case
  for a strategy other than AVG and CUSTOM; reading it then raises.
\<close>

definition main_loop_body :: "bool \<Rightarrow> rat option \<Rightarrow> node \<times> nat \<Rightarrow> error + node option" where
  "main_loop_body forced avg entry =
     (let nd = fst entry in
      if name_of nd = ''p'' \<or> name_of nd = ''h1'' \<or> name_of nd = ''h2'' then Inr (Some nd)
      else if find_all ''h1'' nd \<noteq> [] then Inr (Some nd)
      else if forced \<and> length (find_all ''p'' nd) > 3 then Inr (Some nd)
      else (case avg of
              None \<Rightarrow> Inl UnboundLocalError
            | Some a \<Rightarrow> if of_nat (snd entry) < a then Inr None else Inr (Some nd)))"

text \<open>
  The threshold of a level. \<open>coef\<close> is the exact value of the float \<open>CUSTOM_COEFF\<close>.
  Python rounds the quotient and the product to the nearest double; the model keeps them
  exact. The two agree whenever the exact value is itself a double, as it is for the
  coefficients 1.0 and 0.5 with sums below \<open>2^53\<close>; the comparison with an integer density
  at line 174 is exact in both.
\<close>

definition level_avg :: "string \<Rightarrow> rat \<Rightarrow> (node \<times> nat) list \<Rightarrow> rat option" where
  "level_avg strategy coef density =
     (if strategy = ''AVG''
        then Some (of_nat (sum_list (map snd density)) / of_nat (length density))
      else if strategy = ''CUSTOM''
        then Some (of_nat (sum_list (map snd density)) * coef)
      else None)"

text \<open>
  The contents of a node after its level has been processed. Strings stay. An element
  child whose markup was met before among its siblings (\<open>seen\<close>) is not a key of the
  dictionary and stays as it is; every other element child is a key, in the order of the
  keys, and is replaced by its processed version, or is gone when it was decomposed.
\<close>

fun rebuild :: "node set \<Rightarrow> node list \<Rightarrow> node option list \<Rightarrow> node list" where
  "rebuild seen [] rs = []"
| "rebuild seen (NavigableString s # cs) rs = NavigableString s # rebuild seen cs rs"
| "rebuild seen (Tag i n a ds # cs) rs =
     (if markup (Tag i n a ds) \<in> seen then Tag i n a ds # rebuild seen cs rs
      else (case rs of
              [] \<Rightarrow> Tag i n a ds # rebuild (insert (markup (Tag i n a ds)) seen) cs []
            | None # rs' \<Rightarrow> rebuild (insert (markup (Tag i n a ds)) seen) cs rs'
            | Some t # rs' \<Rightarrow> t # rebuild (insert (markup (Tag i n a ds)) seen) cs rs'))"

text \<open>\<open>for node in density.keys(): self.main_content(density, ...)\<close>\<close>

fun repeat_call :: "nat \<Rightarrow> ('a \<Rightarrow> error + 'a) \<Rightarrow> 'a \<Rightarrow> error + 'a" where
  "repeat_call 0 call x = Inr x"
| "repeat_call (Suc k) call x =
     (case call x of Inl e \<Rightarrow> Inl e | Inr y \<Rightarrow> repeat_call k call y)"

text \<open>
  One iteration of the outer loop \<open>for node in density.keys()\<close>. The dictionary passed
  down the recursion keeps its decomposed keys; such a key (\<open>None\<close>) has no children
  left, so its iteration changes nothing. \<open>call\<close> is the recursive self-call.
\<close>

definition level_step ::
  "(node option list \<Rightarrow> error + node option list) \<Rightarrow> string \<Rightarrow> rat \<Rightarrow> bool \<Rightarrow>
     node option \<Rightarrow> error + node option" where
  "level_step call strategy coef forced key =
     (case key of
        None \<Rightarrow> Inr None
      | Some nd \<Rightarrow>
          (let childs = find_all_direct nd;
               density = calc_density childs
           in if strategy = ''AVG'' \<and> length density = 0 then Inr (Some nd)
              else
                (case for_each (main_loop_body forced (level_avg strategy coef density)) density of
                   Inl e \<Rightarrow> Inl e
                 | Inr keys \<Rightarrow>
                     (case repeat_call (length density) call keys of
                        Inl e \<Rightarrow> Inl e
                      | Inr keys' \<Rightarrow>
                          Inr (Some (set_contents nd (rebuild {} (contents_of nd) keys')))))))"

text \<open>The block under \<open>if strategy is not None\<close>.\<close>

definition pruning_pass ::
  "(node option list \<Rightarrow> error + node option list) \<Rightarrow> config \<Rightarrow> bool \<Rightarrow>
     node option list \<Rightarrow> error + node option list" where
  "pruning_pass call cfg forced density =
     (case STRATEGY cfg of
        None \<Rightarrow> Inr density
      | Some strategy \<Rightarrow> for_each (level_step call strategy (CUSTOM_COEFF cfg) forced) density)"

text \<open>
  \<open>main_content\<close> called with a density dictionary. The first argument is the number of
  nested self-calls still allowed, this one included; a call beyond it is
  \<open>RecursionError\<close>.
\<close>

primrec main_content_rec ::
  "nat \<Rightarrow> config \<Rightarrow> bool \<Rightarrow> node option list \<Rightarrow> error + node option list" where
  "main_content_rec 0 cfg forced density = Inl RecursionError"
| "main_content_rec (Suc fuel) cfg forced density =
     pruning_pass (main_content_rec fuel cfg forced) cfg forced density"

text \<open>
  \<open>main_content\<close> at its entry point (\<open>density is None\<close>): the density of the root's
  children is handed to a self-call, and after it the same frame runs the pruning block
  on that dictionary once more. \<open>depth_limit\<close> bounds the nesting of self-calls below the
  entry.
\<close>

definition main_content :: "nat \<Rightarrow> config \<Rightarrow> bool \<Rightarrow> node \<Rightarrow> error + node" where
  "main_content depth_limit cfg forced soup =
     (let children = find_all_direct soup;
          density = map (\<lambda>entry. Some (fst entry)) (calc_density children)
      in case main_content_rec depth_limit cfg forced density of
           Inl e \<Rightarrow> Inl e
         | Inr density1 \<Rightarrow>
             (case pruning_pass (main_content_rec depth_limit cfg forced) cfg forced density1 of
                Inl e \<Rightarrow> Inl e
              | Inr density2 \<Rightarrow>
                  Inr (set_contents soup (rebuild {} (contents_of soup) density2))))"

section \<open>Strings\<close>

text \<open>
  A string is a list of characters; a character stands for the code point of the same
  number. \<open>is_space\<close> is \<open>str.isspace\<close>, which is also the class \<open>\s\<close> of the
  regular expressions, and \<open>is_word\<close> is the class \<open>\w\<close>, both on the code points below 256.
\<close>

abbreviation NL :: char where
  "NL \<equiv> CHR 0x0A"

definition is_space :: "char \<Rightarrow> bool" where
  "is_space c =
     (let n = (of_char c :: nat)
      in (9 \<le> n \<and> n \<le> 13) \<or> (28 \<le> n \<and> n \<le> 32) \<or> n = 133 \<or> n = 160)"

definition is_word :: "char \<Rightarrow> bool" where
  "is_word c =
     (let n = (of_char c :: nat)
      in (48 \<le> n \<and> n \<le> 57) \<or> (65 \<le> n \<and> n \<le> 90) \<or> n = 95 \<or> (97 \<le> n \<and> n \<le> 122)
         \<or> n = 170 \<or> n = 178 \<or> n = 179 \<or> n = 181 \<or> n = 185 \<or> n = 186
         \<or> (188 \<le> n \<and> n \<le> 190) \<or> (192 \<le> n \<and> n \<le> 214) \<or> (216 \<le> n \<and> n \<le> 246)
         \<or> 248 \<le> n)"

definition lstrip :: "string \<Rightarrow> string" where
  "lstrip s = dropWhile is_space s"

definition strip :: "string \<Rightarrow> string" where
  "strip s = rev (dropWhile is_space (rev (dropWhile is_space s)))"

text \<open>\<open>sub in s\<close>\<close>

fun contains :: "string \<Rightarrow> string \<Rightarrow> bool" where
  "contains sub [] = (sub = [])"
| "contains sub (c # s) = (prefix sub (c # s) \<or> contains sub s)"

text \<open>
  \<open>s.replace(old, new)\<close>: every occurrence of \<open>old\<close> found by scanning from the left,
  without overlaps; an empty \<open>old\<close> matches before every character and at the end.
\<close>

function replace_scan :: "string \<Rightarrow> string \<Rightarrow> string \<Rightarrow> string" where
  "replace_scan old new [] = []"
| "replace_scan old new (c # s) =
     (if old \<noteq> [] \<and> prefix old (c # s)
        then new @ replace_scan old new (drop (length old) (c # s))
      else c # replace_scan old new s)"
  by pat_completeness auto
termination
  by (relation "measure (\<lambda>(old, new, s). length s)") auto

definition replace :: "string \<Rightarrow> string \<Rightarrow> string \<Rightarrow> string" where
  "replace old new s =
     (if old = [] then new @ concat (map (\<lambda>c. c # new) s) else replace_scan old new s)"

text \<open>\<open>s.split(sep)\<close> for a non-empty separator, and \<open>sep.join(pieces)\<close>.\<close>

function split :: "string \<Rightarrow> string \<Rightarrow> string list" where
  "split sep [] = [[]]"
| "split sep (c # s) =
     (if sep \<noteq> [] \<and> prefix sep (c # s)
        then [] # split sep (drop (length sep) (c # s))
      else (case split sep s of
              piece # pieces \<Rightarrow> (c # piece) # pieces
            | [] \<Rightarrow> [[c]]))"
  by pat_completeness auto
termination
  by (relation "measure (\<lambda>(sep, s). length s)") auto

fun join :: "string \<Rightarrow> string list \<Rightarrow> string" where
  "join sep [] = []"
| "join sep [piece] = piece"
| "join sep (piece # pieces) = piece @ sep @ join sep pieces"

text \<open>The lines of a text: the pieces between line breaks.\<close>

fun lines_of :: "string \<Rightarrow> string list" where
  "lines_of [] = [[]]"
| "lines_of (c # s) =
     (if c = NL then [] # lines_of s
      else (case lines_of s of l # ls \<Rightarrow> (c # l) # ls | [] \<Rightarrow> [[c]]))"


section \<open>Formatter\<close>

text \<open>\<open>re.match(r'http(s)?://', url)\<close>: the matched text, or \<open>None\<close>.\<close>

definition match_scheme :: "string \<Rightarrow> string option" where
  "match_scheme url =
     (if prefix ''https://'' url then Some ''https://''
      else if prefix ''http://'' url then Some ''http://''
      else None)"

text \<open>
  \<open>_domain_name\<close>. Calling \<open>group\<close> on a failed match is an \<open>AttributeError\<close>.
  \<open>split\<close> never returns an empty list, so \<open>[-1]\<close> and \<open>[0]\<close> are \<open>last\<close> and \<open>hd\<close>.
\<close>

definition domain_name :: "string \<Rightarrow> error + string" where
  "domain_name url =
     (case match_scheme url of
        None \<Rightarrow> Inl AttributeError
      | Some scheme \<Rightarrow> Inr (scheme @ hd (split ''/'' (last (split ''//'' url)))))"

text \<open>\<open>url['href']\<close>: a missing attribute is a \<open>KeyError\<close>.\<close>

definition href_of :: "node \<Rightarrow> error + string" where
  "href_of url =
     (case map_of (attrs_of url) ''href'' of None \<Rightarrow> Inl KeyError | Some h \<Rightarrow> Inr h)"

text \<open>
  The loop of \<open>_get_urls\<close> over the anchors. The dictionary \<open>r_urls\<close> goes from the
  bracketed URL to the anchor text; it is kept in insertion order, and \<open>update\<close> on a
  key that is present replaces its value in place. The test \<open>("http" or "htpps") not in\<close>
  is the test for \<open>"http"\<close> alone.
\<close>

fun get_urls_loop ::
  "string \<Rightarrow> node list \<Rightarrow> (string \<times> string) list \<Rightarrow> error + (string \<times> string) list" where
  "get_urls_loop domain [] r_urls = Inr r_urls"
| "get_urls_loop domain (url # urls) r_urls =
     (case href_of url of
        Inl e \<Rightarrow> Inl e
      | Inr h \<Rightarrow>
          (if \<not> contains ''http'' h
             then get_urls_loop domain urls
                    (AList.update (''['' @ domain @ h @ '']'') (text_of url) r_urls)
           else get_urls_loop domain urls
                  (AList.update (''['' @ h @ '']'') (text_of url) r_urls)))"

definition get_urls :: "node list \<Rightarrow> string \<Rightarrow> error + (string \<times> string) list" where
  "get_urls urls domain =
     (case domain_name domain of
        Inl e \<Rightarrow> Inl e
      | Inr d \<Rightarrow> get_urls_loop d urls [])"

text \<open>
  \<open>re.sub(pattern, repl, text)\<close> where the pattern has no character that is special in
  a regular expression and the replacement has no backslash: then it replaces the
  occurrences of the pattern as \<open>str.replace\<close> does. Other patterns are outside the model.
\<close>

definition regex_special :: "char \<Rightarrow> bool" where
  "regex_special c \<longleftrightarrow> c \<in> set ''.^$*+?{}[]|()'' \<or> c = CHR 0x5C"

definition re_sub :: "string \<Rightarrow> string \<Rightarrow> string \<Rightarrow> error + string" where
  "re_sub pattern repl text =
     (if list_ex regex_special pattern \<or> CHR 0x5C \<in> set repl then Inl UnsupportedPattern
      else Inr (replace pattern repl text))"

fun add_urls :: "string \<Rightarrow> (string \<times> string) list \<Rightarrow> error + string" where
  "add_urls text [] = Inr text"
| "add_urls text ((url, description) # prepared_urls) =
     (case re_sub description (description @ '' '' @ url) text of
        Inl e \<Rightarrow> Inl e
      | Inr text' \<Rightarrow> add_urls text' prepared_urls)"

text \<open>The body of the loop that separates the paragraphs, and the loop.\<close>

definition separate_paragraph :: "node \<Rightarrow> string \<Rightarrow> string" where
  "separate_paragraph p string =
     (if text_of p = [] then string
      else replace (strip (text_of p)) ([NL] @ strip (text_of p) @ [NL]) string)"

fun separate_paragraphs :: "node list \<Rightarrow> string \<Rightarrow> string" where
  "separate_paragraphs [] string = string"
| "separate_paragraphs (p # paragr) string = separate_paragraphs paragr (separate_paragraph p string)"

text \<open>
  The regular expression of the wrapping stage has three alternatives, tried in order at
  each position. The first is a bracketed URL: \<open>[\<close>, the scheme, then as many characters
  that are not white space as possible, given back one by one until a \<open>]\<close> follows; so the
  marker ends at the last \<open>]\<close> of that run, which must not be its first character.
\<close>

definition last_close :: "string \<Rightarrow> nat option" where
  "last_close run =
     (case filter (\<lambda>j. run ! j = CHR '']'') (rev [1..<length run]) of
        [] \<Rightarrow> None
      | j # _ \<Rightarrow> Some j)"

fun match_marker :: "string \<Rightarrow> string option" where
  "match_marker [] = None"
| "match_marker (c # rest) =
     (if c \<noteq> CHR ''['' then None
      else (case match_scheme rest of
              None \<Rightarrow> None
            | Some scheme \<Rightarrow>
                (case last_close (takeWhile (\<lambda>x. \<not> is_space x) (drop (length scheme) rest)) of
                   None \<Rightarrow> None
                 | Some j \<Rightarrow>
                     Some (c # scheme @
                           take j (takeWhile (\<lambda>x. \<not> is_space x) (drop (length scheme) rest)) @
                           '']''))))"

text \<open>The second alternative is a run of word characters, the third a single character.\<close>

definition match_word :: "string \<Rightarrow> string option" where
  "match_word s = (if takeWhile is_word s = [] then None else Some (takeWhile is_word s))"

definition match_single :: "string \<Rightarrow> string option" where
  "match_single s =
     (case s of
        [] \<Rightarrow> None
      | c # _ \<Rightarrow> if is_space c \<or> c \<in> set ''.,!?;()-'' then Some [c] else None)"

definition match_token :: "string \<Rightarrow> string option" where
  "match_token s =
     (case match_marker s of
        Some t \<Rightarrow> Some t
      | None \<Rightarrow> (case match_word s of Some t \<Rightarrow> Some t | None \<Rightarrow> match_single s))"

text \<open>
  \<open>re.findall\<close>, keeping the first group (\<open>word[0]\<close>) of every match: a position where no
  alternative matches is skipped.
\<close>

function findall :: "string \<Rightarrow> string list" where
  "findall [] = []"
| "findall (c # s) =
     (case match_token (c # s) of
        None \<Rightarrow> findall s
      | Some t \<Rightarrow> t # findall (drop (length t - 1) s))"
  by pat_completeness auto
termination
  by (relation "measure length") auto

text \<open>
  One iteration of the loop that edits the text by the given length, on the state
  (\<open>length\<close>, \<open>new_string\<close>).
\<close>

definition wrap_step :: "int \<Rightarrow> int \<times> string \<Rightarrow> string \<Rightarrow> int \<times> string" where
  "wrap_step max_length state word =
     (let len0 = fst state;
          new0 = snd state;
          w = (if len0 = 1 then lstrip word else word);
          len1 = len0 + int (length word);
          new1 = (if w = [NL] then new0 @ [NL] else new0);
          len2 = (if w = [NL] then 1 else len1)
      in if len2 > max_length then (int (length w) + 1, new1 @ [NL] @ w)
         else if len2 = max_length then (1, new1 @ w @ [NL])
         else (len2, new1 @ w))"

definition wrap_loop :: "int \<Rightarrow> string list \<Rightarrow> int \<times> string" where
  "wrap_loop max_length sp2 = foldl (wrap_step max_length) (1, []) sp2"

text \<open>The wrapping stage: from \<open>re.findall\<close> to the returned string.\<close>

definition wrap_text :: "int \<Rightarrow> string \<Rightarrow> string" where
  "wrap_text max_length text_with_urls =
     replace [NL, NL, NL] [NL] (snd (wrap_loop max_length (findall text_with_urls)))"

definition prepare_text :: "string \<Rightarrow> node \<Rightarrow> int \<Rightarrow> error + string" where
  "prepare_text domain soup max_length =
     (let paragr = find_all ''p'' soup;
          urls = find_all ''a'' soup;
          string = replace [CHR 0x5C, CHR ''s'', CHR ''+''] '' ''
                     (strip (replace [NL] [] (text_of soup)));
          string = separate_paragraphs paragr string
      in case get_urls urls domain of
           Inl e \<Rightarrow> Inl e
         | Inr prepared_urls \<Rightarrow>
             (case add_urls string prepared_urls of
                Inl e \<Rightarrow> Inl e
              | Inr text_with_urls \<Rightarrow> Inr (wrap_text max_length text_with_urls)))"

section \<open>Specification vocabulary\<close>

text \<open>
  The tags the main loop never decomposes, and the relation between a tree and what is
  left of it after subtrees rooted at other elements have been removed.
\<close>

definition primary_tag :: "node \<Rightarrow> bool" where
  "primary_tag nd \<longleftrightarrow> name_of nd = ''p'' \<or> name_of nd = ''h1'' \<or> name_of nd = ''h2''"

inductive prunes :: "node \<Rightarrow> node \<Rightarrow> bool"
  and prunes_list :: "node list \<Rightarrow> node list \<Rightarrow> bool" where
  prunes_string: "prunes (NavigableString s) (NavigableString s)"
| prunes_tag: "prunes_list cs cs' \<Longrightarrow> prunes (Tag i n a cs) (Tag i n a cs')"
| prunes_nil: "prunes_list [] []"
| prunes_keep: "prunes c c' \<Longrightarrow> prunes_list cs cs' \<Longrightarrow> prunes_list (c # cs) (c' # cs')"
| prunes_drop: "is_tag c \<Longrightarrow> \<not> primary_tag c \<Longrightarrow> prunes_list cs cs' \<Longrightarrow> prunes_list (c # cs) cs'"

inductive_cases prunes_stringE: "prunes (NavigableString s) t"
inductive_cases prunes_tagE: "prunes (Tag i n a cs) t"
inductive_cases prunes_nilE: "prunes_list [] ys"
inductive_cases prunes_consE: "prunes_list (c # cs) ys"

fun prunes_key :: "node option \<Rightarrow> node option \<Rightarrow> bool" where
  "prunes_key None None = True"
| "prunes_key (Some c) (Some c') = prunes c c'"
| "prunes_key _ _ = False"

fun prunes_child :: "node \<Rightarrow> node option \<Rightarrow> bool" where
  "prunes_child c None = (is_tag c \<and> \<not> primary_tag c)"
| "prunes_child c (Some c') = prunes c c'"

text \<open>The first sibling of every markup that is not in \<open>seen\<close>: the keys of a density.\<close>

fun dedupe_from :: "node set \<Rightarrow> node list \<Rightarrow> node list" where
  "dedupe_from seen [] = []"
| "dedupe_from seen (x # xs) =
     (if markup x \<in> seen then dedupe_from seen xs
      else x # dedupe_from (insert (markup x) seen) xs)"



text \<open>The bracketed URL under which \<open>_get_urls\<close> files an anchor that has a target.\<close>

definition marker :: "string \<Rightarrow> node \<Rightarrow> string" where
  "marker domain url =
     (case map_of (attrs_of url) ''href'' of
        None \<Rightarrow> []
      | Some h \<Rightarrow> if contains ''http'' h then ''['' @ h @ '']'' else ''['' @ domain @ h @ '']'')"


text \<open>The elements of a tree, the root included, in document order.\<close>

definition elements :: "node \<Rightarrow> node list" where
  "elements t = filter is_tag (t # descendants t)"

text \<open>
  The exemptions of the main loop (lines 162 to 171), and the nodes the main loop tests
  when no node is removed: the keys of the density of every node the traversal visits.
\<close>

definition exempt :: "bool \<Rightarrow> node \<Rightarrow> bool" where
  "exempt forced nd \<longleftrightarrow>
     name_of nd = ''p'' \<or> name_of nd = ''h1'' \<or> name_of nd = ''h2'' \<or>
     find_all ''h1'' nd \<noteq> [] \<or> (forced \<and> 3 < length (find_all ''p'' nd))"

fun tested_below :: "node \<Rightarrow> node list" where
  "tested_below (NavigableString s) = []"
| "tested_below (Tag i n a cs) =
     concat (map (\<lambda>c. if c \<in> set (dedupe_from {} (filter is_tag cs)) then c # tested_below c else []) cs)"

definition tested :: "node \<Rightarrow> node list" where
  "tested soup = concat (map tested_below (dedupe_from {} (find_all_direct soup)))"

definition all_exempt :: "bool \<Rightarrow> node option list \<Rightarrow> bool" where
  "all_exempt forced ks \<longleftrightarrow> (\<forall>k. Some k \<in> set ks \<longrightarrow> (\<forall>t\<in>set (tested_below k). exempt forced t))"

section \<open>Example documents\<close>

definition custom_half :: config where
  "custom_half = \<lparr>STRATEGY = Some ''CUSTOM'', CUSTOM_COEFF = 1 / 2, FORCED = True, MAX_LENGTH = 80\<rparr>"

text \<open>A paragraph inside a shallow \<open>div\<close>, next to a deeply nested \<open>section\<close>.\<close>

definition nested_paragraph_soup :: node where
  "nested_paragraph_soup =
     Tag 0 ''[document]'' []
       [Tag 1 ''body'' []
          [Tag 2 ''div'' [] [Tag 3 ''p'' [] [NavigableString ''hi'']],
           Tag 4 ''section'' [] [Tag 5 ''div'' [] [Tag 6 ''div'' [] [Tag 7 ''div'' [] []]]]]]"

text \<open>A paragraph that is a direct child of the \<open>body\<close>, next to a shallow \<open>div\<close>.\<close>

definition direct_paragraph_soup :: node where
  "direct_paragraph_soup =
     Tag 0 ''[document]'' []
       [Tag 1 ''body'' []
          [Tag 2 ''p'' [] [NavigableString ''hi''],
           Tag 3 ''div'' [] [],
           Tag 4 ''section'' [] [Tag 5 ''div'' [] [Tag 6 ''div'' [] []]]]]"

text \<open>The empty document.\<close>

definition empty_soup :: node where
  "empty_soup = Tag 0 ''[document]'' [] []"

text \<open>A document whose body holds one paragraph only.\<close>

definition paragraph_only_soup :: node where
  "paragraph_only_soup =
     Tag 0 ''[document]'' [] [Tag 1 ''body'' [] [Tag 2 ''p'' [] [NavigableString ''hi'']]]"

definition median_config :: config where
  "median_config = \<lparr>STRATEGY = Some ''MEDIAN'', CUSTOM_COEFF = 1 / 2, FORCED = True, MAX_LENGTH = 80\<rparr>"






text \<open>Anchors: two with the same text, one without a target, one with an empty target.\<close>

definition about_a :: node where
  "about_a = Tag 1 ''a'' [(''href'', ''/a'')] [NavigableString ''About'']"

definition about_b :: node where
  "about_b = Tag 2 ''a'' [(''href'', ''/b'')] [NavigableString ''About'']"

definition named_anchor :: node where
  "named_anchor = Tag 3 ''a'' [(''name'', ''top'')] [NavigableString ''Top'']"

definition empty_target_anchor :: node where
  "empty_target_anchor = Tag 4 ''a'' [(''href'', [])] [NavigableString ''Home'']"

section \<open>Pruning only removes subtrees\<close>

lemma prunes_refl_aux: "prunes t t \<and> prunes_list (contents_of t) (contents_of t)"
proof (induction t)
  case (Tag i n a cs)
  have "prunes_list cs cs" using Tag
  proof (induction cs)
    case Nil show ?case by (rule prunes_nil)
  next
    case (Cons c cs)
    then show ?case by (auto intro: prunes_keep)
  qed
  then show ?case by (auto intro: prunes_tag)
next
  case (NavigableString s)
  show ?case by (auto intro: prunes_string prunes_nil)
qed

lemma prunes_refl: "prunes t t" using prunes_refl_aux by blast

lemma prunes_list_refl: "prunes_list cs cs"
  by (induction cs) (auto intro: prunes_nil prunes_keep prunes_refl)

lemma prunes_same: "prunes t u \<Longrightarrow> is_tag u = is_tag t \<and> name_of u = name_of t"
  by (erule prunes.cases) auto

lemma prunes_primary: "prunes t u \<Longrightarrow> primary_tag u = primary_tag t"
  by (simp add: primary_tag_def prunes_same)

lemma prunes_trans_aux:
  "(prunes t u \<longrightarrow> (\<forall>v. prunes u v \<longrightarrow> prunes t v)) \<and>
   (prunes_list ts us \<longrightarrow> (\<forall>vs. prunes_list us vs \<longrightarrow> prunes_list ts vs))"
proof (induction rule: prunes_prunes_list.induct)
  case (prunes_string s)
  then show ?case by simp
next
  case (prunes_tag cs cs' i n a)
  then show ?case by (auto elim!: prunes_tagE intro: prunes_prunes_list.prunes_tag)
next
  case prunes_nil
  then show ?case by simp
next
  case (prunes_keep c c' cs cs')
  show ?case
  proof (intro allI impI)
    fix vs assume "prunes_list (c' # cs') vs"
    then show "prunes_list (c # cs) vs"
    proof (rule prunes_consE)
      fix v vs' assume "vs = v # vs'" "prunes c' v" "prunes_list cs' vs'"
      then show ?thesis using prunes_keep.IH by (auto intro: prunes_prunes_list.prunes_keep)
    next
      assume "is_tag c'" "\<not> primary_tag c'" "prunes_list cs' vs"
      then show ?thesis using prunes_keep.IH prunes_keep.hyps prunes_same[of c c'] prunes_primary[of c c']
        by (auto intro: prunes_prunes_list.prunes_drop)
    qed
  qed
next
  case (prunes_drop c cs cs')
  then show ?case by (auto intro: prunes_prunes_list.prunes_drop)
qed

lemma prunes_trans: "prunes t u \<Longrightarrow> prunes u v \<Longrightarrow> prunes t v"
  using prunes_trans_aux by blast


lemma for_each_Inr: "for_each f xs = Inr ys \<Longrightarrow> list_all2 (\<lambda>x y. f x = Inr y) xs ys"
  by (induction xs arbitrary: ys) (auto split: sum.splits)

lemma for_each_Inl: "for_each f xs = Inl e \<Longrightarrow> \<exists>x\<in>set xs. f x = Inl e"
  by (induction xs) (auto split: sum.splits)

lemma markup_depth: "calc_depth (markup t) = calc_depth t"
proof (induction t)
  case (Tag i n a cs)
  then have "map (\<lambda>c. calc_depth (markup c)) cs = map calc_depth cs" by simp
  then have e: "map calc_depth (map markup cs) = map calc_depth cs" by (simp add: comp_def)
  show ?case by (simp only: markup.simps calc_depth.simps e map_is_Nil_conv)
next
  case (NavigableString s)
  show ?case by simp
qed

lemma same_markup_depth: "markup a = markup b \<Longrightarrow> calc_depth a = calc_depth b"
  by (metis markup_depth)

lemma dict_update_keys:
  "dict_update nd (calc_depth nd) (map (\<lambda>k. (k, calc_depth k)) ks) =
     (if markup nd \<in> markup ` set ks then map (\<lambda>k. (k, calc_depth k)) ks
      else map (\<lambda>k. (k, calc_depth k)) (ks @ [nd]))"
  by (induction ks) (auto dest: same_markup_depth)

lemma calc_density_from:
  "foldl (\<lambda>node_density nd. dict_update nd (calc_depth nd) node_density)
     (map (\<lambda>k. (k, calc_depth k)) ks) nodes =
   map (\<lambda>k. (k, calc_depth k)) (ks @ dedupe_from (markup ` set ks) nodes)"
proof (induction nodes arbitrary: ks)
  case Nil
  show ?case by simp
next
  case (Cons x xs)
  show ?case
  proof (cases "markup x \<in> markup ` set ks")
    case True
    then show ?thesis using Cons[of ks] by (simp add: dict_update_keys)
  next
    case False
    then show ?thesis using Cons[of "ks @ [x]"] by (simp add: dict_update_keys)
  qed
qed

lemma calc_density_keys:
  "calc_density nodes = map (\<lambda>k. (k, calc_depth k)) (dedupe_from {} nodes)"
  using calc_density_from[of "[]" nodes] by (simp add: calc_density_def)

lemma dedupe_subset: "set (dedupe_from seen xs) \<subseteq> set xs"
  by (induction xs arbitrary: seen) auto

lemma dedupe_not_Nil: "xs \<noteq> [] \<Longrightarrow> dedupe_from {} xs \<noteq> []"
  by (cases xs) auto

lemma main_loop_body_child:
  "main_loop_body forced avg (nd, d) = Inr r \<Longrightarrow> is_tag nd \<Longrightarrow> prunes_child nd r"
  by (auto simp: main_loop_body_def primary_tag_def prunes_refl split: if_splits option.splits)

lemma main_loop_children:
  assumes "for_each (main_loop_body forced avg) (calc_density childs) = Inr keys"
    and "\<forall>c\<in>set childs. is_tag c"
  shows "list_all2 prunes_child (dedupe_from {} childs) keys"
proof -
  have "list_all2 (\<lambda>x y. main_loop_body forced avg x = Inr y) (calc_density childs) keys"
    using assms(1) by (rule for_each_Inr)
  then have "list_all2 (\<lambda>c y. main_loop_body forced avg (c, calc_depth c) = Inr y)
               (dedupe_from {} childs) keys"
    by (simp add: calc_density_keys list_all2_map1)
  moreover have "\<forall>c\<in>set (dedupe_from {} childs). is_tag c"
    using assms(2) dedupe_subset by blast
  ultimately show ?thesis
    by (auto elim!: list.rel_mono_strong intro: main_loop_body_child)
qed

lemma prunes_child_key: "prunes_child c k \<Longrightarrow> prunes_key k k' \<Longrightarrow> prunes_child c k'"
  by (cases k; cases k') (auto intro: prunes_trans)

lemma prunes_children_keys:
  "list_all2 prunes_child cs ks \<Longrightarrow> list_all2 prunes_key ks ks' \<Longrightarrow> list_all2 prunes_child cs ks'"
  by (induction cs ks arbitrary: ks' rule: list_all2_induct)
     (auto simp: list_all2_Cons1 intro: prunes_child_key)

lemma repeat_call_invariant:
  assumes "repeat_call k call x = Inr y" and "I x"
    and "\<And>u v. I u \<Longrightarrow> call u = Inr v \<Longrightarrow> I v"
  shows "I y"
  using assms(1,2)
  by (induction k arbitrary: x) (auto split: sum.splits intro: assms(3))

lemma repeat_call_error:
  assumes "repeat_call k call x = Inl e" and "I x"
    and "\<And>u v. I u \<Longrightarrow> call u = Inr v \<Longrightarrow> I v"
  shows "\<exists>u. I u \<and> call u = Inl e"
  using assms(1,2)
  by (induction k arbitrary: x) (auto split: sum.splits intro: assms(3))

lemma rebuild_prunes:
  "list_all2 prunes_child (dedupe_from seen (filter is_tag cs)) rs \<Longrightarrow>
   prunes_list cs (rebuild seen cs rs)"
proof (induction seen cs rs rule: rebuild.induct)
  case (1 seen rs)
  show ?case by (simp add: prunes_nil)
next
  case (2 seen s cs rs)
  then show ?case by (auto intro: prunes_keep prunes_string)
next
  case (3 seen i n a ds cs rs)
  let ?c = "Tag i n a ds"
  show ?case
  proof (cases "markup ?c \<in> seen")
    case True
    then show ?thesis using 3 by (auto intro: prunes_keep prunes_refl)
  next
    case False
    with "3.prems" obtain r rs' where rs: "rs = r # rs'" and r: "prunes_child ?c r"
      and rest: "list_all2 prunes_child (dedupe_from (insert (markup ?c) seen) (filter is_tag cs)) rs'"
      by (auto simp: list_all2_Cons1)
    show ?thesis
    proof (cases r)
      case None
      then show ?thesis using False rs r rest "3.IH"(3)[OF False rs] by (auto intro: prunes_drop)
    next
      case (Some t)
      then show ?thesis using False rs r rest "3.IH"(4)[OF False rs] by (auto intro: prunes_keep)
    qed
  qed
qed

lemma set_contents_prunes:
  "prunes_list (contents_of nd) cs' \<Longrightarrow> prunes nd (set_contents nd cs')"
  by (cases nd) (auto intro: prunes_tag prunes_string)

lemma level_step_prunes:
  assumes call: "\<And>ks ks'. call ks = Inr ks' \<Longrightarrow> list_all2 prunes_key ks ks'"
    and step: "level_step call strategy coef forced key = Inr key'"
  shows "prunes_key key key'"
proof (cases key)
  case None
  with step show ?thesis by (simp add: level_step_def)
next
  case (Some nd)
  let ?childs = "find_all_direct nd"
  let ?density = "calc_density ?childs"
  show ?thesis
  proof (cases "strategy = ''AVG'' \<and> length ?density = 0")
    case True
    with step Some show ?thesis by (auto simp: level_step_def Let_def prunes_refl)
  next
    case False
    from step Some False obtain keys keys' where
      loop: "for_each (main_loop_body forced (level_avg strategy coef ?density)) ?density = Inr keys"
      and rep: "repeat_call (length ?density) call keys = Inr keys'"
      and res: "key' = Some (set_contents nd (rebuild {} (contents_of nd) keys'))"
      by (auto simp: level_step_def Let_def split: sum.splits if_splits)
    let ?first = "dedupe_from {} ?childs"
    have first: "list_all2 prunes_child ?first keys"
      using loop by (rule main_loop_children) (simp add: find_all_direct_def)
    have "list_all2 prunes_child ?first keys'"
    proof (rule repeat_call_invariant[OF rep, where I="list_all2 prunes_child ?first"])
      show "list_all2 prunes_child ?first keys" by (rule first)
    next
      fix u v assume "list_all2 prunes_child ?first u" "call u = Inr v"
      then show "list_all2 prunes_child ?first v"
        by (blast intro: prunes_children_keys call)
    qed
    then have "prunes_list (contents_of nd) (rebuild {} (contents_of nd) keys')"
      by (intro rebuild_prunes) (simp add: find_all_direct_def)
    then show ?thesis using Some res by (simp add: set_contents_prunes)
  qed
qed

lemma prunes_key_refl: "prunes_key k k"
  by (cases k) (auto intro: prunes_refl)

lemma pruning_pass_prunes:
  assumes call: "\<And>ks ks'. call ks = Inr ks' \<Longrightarrow> list_all2 prunes_key ks ks'"
    and pass: "pruning_pass call cfg forced density = Inr density'"
  shows "list_all2 prunes_key density density'"
proof (cases "STRATEGY cfg")
  case None
  with pass show ?thesis by (simp add: pruning_pass_def list_all2_refl prunes_key_refl)
next
  case (Some strategy)
  with pass have "list_all2 (\<lambda>x y. level_step call strategy (CUSTOM_COEFF cfg) forced x = Inr y) density density'"
    by (simp add: pruning_pass_def for_each_Inr)
  then show ?thesis
    by (rule list_all2_mono) (rule level_step_prunes[OF call])
qed

lemma main_content_rec_prunes:
  "main_content_rec fuel cfg forced density = Inr density' \<Longrightarrow> list_all2 prunes_key density density'"
proof (induction fuel arbitrary: density density')
  case 0
  then show ?case by simp
next
  case (Suc fuel)
  from Suc.prems have "pruning_pass (main_content_rec fuel cfg forced) cfg forced density = Inr density'"
    by simp
  then show ?case by (rule pruning_pass_prunes[rotated]) (rule Suc.IH)
qed

lemma prunes_key_trans: "prunes_key a b \<Longrightarrow> prunes_key b c \<Longrightarrow> prunes_key a c"
  by (cases a; cases b; cases c) (auto intro: prunes_trans)

lemma prunes_child_Some: "is_tag c \<Longrightarrow> prunes_key (Some c) k \<Longrightarrow> prunes_child c k"
  by (cases k) auto

lemma main_content_prunes:
  assumes "main_content k cfg forced soup = Inr soup'"
  shows "prunes soup soup'"
proof -
  let ?first = "dedupe_from {} (find_all_direct soup)"
  let ?density = "map Some ?first"
  have dens: "map (\<lambda>entry. Some (fst entry)) (calc_density (find_all_direct soup)) = ?density"
    by (simp add: calc_density_keys comp_def)
  from assms obtain d1 d2 where
    d1: "main_content_rec k cfg forced ?density = Inr d1"
    and d2: "pruning_pass (main_content_rec k cfg forced) cfg forced d1 = Inr d2"
    and res: "soup' = set_contents soup (rebuild {} (contents_of soup) d2)"
    by (auto simp: main_content_def Let_def dens split: sum.splits)
  have "list_all2 prunes_key ?density d1" using d1 by (rule main_content_rec_prunes)
  moreover have "list_all2 prunes_key d1 d2"
    using d2 by (rule pruning_pass_prunes[rotated]) (rule main_content_rec_prunes)
  ultimately have "list_all2 prunes_key ?density d2"
    by (rule list_all2_trans[rotated]) (rule prunes_key_trans)
  moreover have "\<forall>c\<in>set ?first. is_tag c"
    using dedupe_subset[of "{}" "find_all_direct soup"] by (auto simp: find_all_direct_def)
  ultimately have "list_all2 prunes_child ?first d2"
    by (simp add: list_all2_map1) (erule list.rel_mono_strong, auto intro: prunes_child_Some)
  then have "prunes_list (contents_of soup) (rebuild {} (contents_of soup) d2)"
    by (intro rebuild_prunes) (simp add: find_all_direct_def)
  then show ?thesis using res by (simp add: set_contents_prunes)
qed

lemma prunes_nid: "prunes t u \<Longrightarrow> is_tag t \<Longrightarrow> nid u = nid t"
  by (erule prunes.cases) auto

lemma prunes_list_member:
  "prunes_list cs cs' \<Longrightarrow> c' \<in> set cs' \<Longrightarrow> \<exists>c\<in>set cs. prunes c c'"
  by (induction cs cs' rule: prunes_prunes_list.inducts(2)[where ?P1.0 = "\<lambda>_ _. True"]) auto

lemma prunes_list_primary:
  "prunes_list cs cs' \<Longrightarrow> c \<in> set cs \<Longrightarrow> primary_tag c \<or> \<not> is_tag c \<Longrightarrow> \<exists>c'\<in>set cs'. prunes c c'"
  by (induction cs cs' rule: prunes_prunes_list.inducts(2)[where ?P1.0 = "\<lambda>_ _. True"]) auto

lemma prunes_contents: "prunes t u \<Longrightarrow> prunes_list (contents_of t) (contents_of u)"
  by (erule prunes.cases) (auto intro: prunes_nil)

lemma descendants_contents: "set (descendants t) = (\<Union>c\<in>set (contents_of t). insert c (set (descendants c)))"
  by (cases t) auto

lemma prunes_descendants:
  "prunes t t' \<Longrightarrow> m' \<in> set (descendants t') \<Longrightarrow> \<exists>m\<in>set (descendants t). prunes m m'"
proof (induction t arbitrary: t' m')
  case (Tag i n a cs)
  from Tag.prems(1) obtain cs' where t': "t' = Tag i n a cs'" and l: "prunes_list cs cs'"
    by (auto elim: prunes_tagE)
  from Tag.prems(2) t' obtain c' where c': "c' \<in> set cs'" and m': "m' = c' \<or> m' \<in> set (descendants c')"
    by auto
  from prunes_list_member[OF l c'] obtain c where c: "c \<in> set cs" "prunes c c'" by blast
  from m' show ?case
  proof
    assume "m' = c'" with c show ?thesis by auto
  next
    assume "m' \<in> set (descendants c')"
    from Tag.IH[OF c(1) c(2) this] c(1) show ?thesis by auto
  qed
next
  case (NavigableString s)
  then show ?case by (auto elim: prunes_stringE)
qed

lemma elements_iff: "m \<in> set (elements t) \<longleftrightarrow> is_tag m \<and> (m = t \<or> m \<in> set (descendants t))"
  by (auto simp: elements_def)

lemma prunes_elements:
  "prunes t t' \<Longrightarrow> m' \<in> set (elements t') \<Longrightarrow> \<exists>m\<in>set (elements t). prunes m m'"
  using prunes_descendants[of t t' m'] prunes_same
  by (fastforce simp: elements_iff)

lemma descendants_child:
  "m \<in> set (descendants t) \<Longrightarrow> c \<in> set (contents_of m) \<Longrightarrow> c \<in> set (descendants t)"
proof (induction t)
  case (Tag i n a cs)
  from Tag.prems(1) obtain d where d: "d \<in> set cs" and m: "m = d \<or> m \<in> set (descendants d)"
    by auto
  from m have "c \<in> set (descendants d)"
  proof
    assume "m = d" with Tag.prems(2) show ?thesis by (auto simp: descendants_contents[of d])
  next
    assume "m \<in> set (descendants d)"
    then show ?thesis using Tag.IH[OF d] Tag.prems(2) by simp
  qed
  with d show ?case by auto
next
  case (NavigableString s)
  then show ?case by simp
qed

lemma child_in_elements:
  assumes "m \<in> set (elements t)" and "c \<in> set (find_all_direct m)"
  shows "c \<in> set (elements t)"
proof -
  from assms(2) have c: "c \<in> set (contents_of m)" "is_tag c"
    by (simp_all add: find_all_direct_def)
  from assms(1) have "m = t \<or> m \<in> set (descendants t)" by (simp add: elements_iff)
  then have "c \<in> set (descendants t)"
  proof
    assume "m = t" with c(1) show ?thesis by (auto simp: descendants_contents[of t])
  next
    assume "m \<in> set (descendants t)" then show ?thesis using c(1) by (rule descendants_child)
  qed
  with c(2) show ?thesis by (simp add: elements_iff)
qed

section \<open>Depth of the recursion and errors\<close>

lemma max_list_ge: "x \<in> set xs \<Longrightarrow> x \<le> max_list xs"
  by (induction xs) auto

lemma calc_depth_child: "c \<in> set (contents_of nd) \<Longrightarrow> calc_depth c < calc_depth nd"
  by (cases nd) (auto simp: less_Suc_eq_le intro!: max_list_ge)

lemma prunes_depth_aux:
  "(prunes t u \<longrightarrow> calc_depth u \<le> calc_depth t) \<and>
   (prunes_list ts us \<longrightarrow>
      max_list (map calc_depth us) \<le> max_list (map calc_depth ts) \<and> (ts = [] \<longrightarrow> us = []))"
  by (induction rule: prunes_prunes_list.induct) auto

lemma prunes_depth: "prunes t u \<Longrightarrow> calc_depth u \<le> calc_depth t"
  using prunes_depth_aux by blast

lemma main_loop_body_error: "main_loop_body forced avg entry = Inl e \<Longrightarrow> e = UnboundLocalError \<and> avg = None"
  by (auto simp: main_loop_body_def Let_def split: if_splits option.splits)

lemma prunes_child_depth:
  assumes "list_all2 prunes_child cs ks" and "Some nd \<in> set ks"
  shows "\<exists>c\<in>set cs. calc_depth nd \<le> calc_depth c"
  using assms
  by (induction cs ks rule: list_all2_induct) (auto intro: prunes_depth)

lemma level_step_recursion_error:
  assumes call: "\<And>ks. 1 < bound \<Longrightarrow> \<forall>c. Some c \<in> set ks \<longrightarrow> Suc (calc_depth c) < bound \<Longrightarrow> call ks \<noteq> Inl RecursionError"
    and callp: "\<And>ks ks'. call ks = Inr ks' \<Longrightarrow> list_all2 prunes_key ks ks'"
    and depth: "\<forall>nd. key = Some nd \<longrightarrow> calc_depth nd < bound"
  shows "level_step call strategy coef forced key \<noteq> Inl RecursionError"
proof (cases key)
  case None
  then show ?thesis by (simp add: level_step_def)
next
  case (Some nd)
  let ?childs = "find_all_direct nd"
  let ?density = "calc_density ?childs"
  show ?thesis
  proof
    assume err: "level_step call strategy coef forced key = Inl RecursionError"
    then have "?density \<noteq> []"
      using Some by (auto simp: level_step_def Let_def split: if_splits sum.splits dest: for_each_Inl main_loop_body_error)
    then have nonempty: "?childs \<noteq> []"
      by (auto simp: calc_density_def)
    from err Some obtain keys where
      loop: "for_each (main_loop_body forced (level_avg strategy coef ?density)) ?density = Inr keys"
      and rep: "repeat_call (length ?density) call keys = Inl RecursionError"
      by (auto simp: level_step_def Let_def split: if_splits sum.splits dest!: for_each_Inl main_loop_body_error)
    let ?first = "dedupe_from {} ?childs"
    have first: "list_all2 prunes_child ?first keys"
      using loop by (rule main_loop_children) (simp add: find_all_direct_def)
    have "\<exists>u. list_all2 prunes_child ?first u \<and> call u = Inl RecursionError"
    proof (rule repeat_call_error[OF rep, where I="list_all2 prunes_child ?first"])
      show "list_all2 prunes_child ?first keys" by (rule first)
    next
      fix u v assume "list_all2 prunes_child ?first u" "call u = Inr v"
      then show "list_all2 prunes_child ?first v"
        by (blast intro: prunes_children_keys callp)
    qed
    then obtain u where u: "list_all2 prunes_child ?first u" "call u = Inl RecursionError" by blast
    have "1 < bound"
    proof -
      from nonempty obtain c0 where "c0 \<in> set ?childs" by (cases ?childs) auto
      then have "calc_depth c0 < calc_depth nd"
        by (simp add: find_all_direct_def calc_depth_child)
      with depth Some show ?thesis by simp
    qed
    moreover have "\<forall>c. Some c \<in> set u \<longrightarrow> Suc (calc_depth c) < bound"
    proof (intro allI impI)
      fix c assume "Some c \<in> set u"
      with u(1) obtain c0 where "c0 \<in> set ?first" and c0d: "calc_depth c \<le> calc_depth c0"
        using prunes_child_depth by blast
      then have c0: "c0 \<in> set ?childs" "calc_depth c \<le> calc_depth c0"
        using dedupe_subset by blast+
      then have "calc_depth c0 < calc_depth nd"
        by (simp add: find_all_direct_def calc_depth_child)
      with c0 depth Some show "Suc (calc_depth c) < bound" by simp
    qed
    ultimately show False using call u(2) by blast
  qed
qed

lemma main_content_rec_enough:
  "0 < fuel \<Longrightarrow> \<forall>nd. Some nd \<in> set density \<longrightarrow> calc_depth nd < fuel \<Longrightarrow>
   main_content_rec fuel cfg forced density \<noteq> Inl RecursionError"
proof (induction fuel arbitrary: density)
  case 0
  then show ?case by simp
next
  case (Suc fuel)
  show ?case
  proof (cases "STRATEGY cfg")
    case None
    then show ?thesis by (simp add: pruning_pass_def)
  next
    case (Some strategy)
    have "level_step (main_content_rec fuel cfg forced) strategy (CUSTOM_COEFF cfg) forced key \<noteq> Inl RecursionError"
      if "key \<in> set density" for key
    proof (rule level_step_recursion_error[where bound="Suc fuel"])
      fix ks :: "node option list"
      assume ne: "1 < Suc fuel" and d: "\<forall>c. Some c \<in> set ks \<longrightarrow> Suc (calc_depth c) < Suc fuel"
      then show "main_content_rec fuel cfg forced ks \<noteq> Inl RecursionError"
        by (intro Suc.IH) auto
    next
      fix ks ks' assume "main_content_rec fuel cfg forced ks = Inr ks'"
      then show "list_all2 prunes_key ks ks'" by (rule main_content_rec_prunes)
    next
      show "\<forall>nd. key = Some nd \<longrightarrow> calc_depth nd < Suc fuel"
        using Suc.prems(2) that by auto
    qed
    then show ?thesis
      using Some by (auto simp: pruning_pass_def dest: for_each_Inl)
  qed
qed


lemma level_avg_None: "level_avg strategy coef density = None \<Longrightarrow> strategy \<noteq> ''AVG'' \<and> strategy \<noteq> ''CUSTOM''"
  by (auto simp: level_avg_def split: if_splits)

lemma level_step_error:
  assumes call: "\<And>ks. call ks = Inl e \<Longrightarrow> P"
    and unbound: "e = UnboundLocalError \<Longrightarrow> strategy \<noteq> ''AVG'' \<Longrightarrow> strategy \<noteq> ''CUSTOM'' \<Longrightarrow> P"
    and step: "level_step call strategy coef forced key = Inl e"
  shows P
proof (cases key)
  case None
  with step show ?thesis by (simp add: level_step_def)
next
  case (Some nd)
  let ?density = "calc_density (find_all_direct nd)"
  let ?avg = "level_avg strategy coef ?density"
  from step Some consider
    (loop) "for_each (main_loop_body forced ?avg) ?density = Inl e"
    | (rep) keys where "repeat_call (length ?density) call keys = Inl e"
    by (auto simp: level_step_def Let_def split: if_splits sum.splits)
  then show ?thesis
  proof cases
    case loop
    then obtain x where "main_loop_body forced ?avg x = Inl e" by (blast dest: for_each_Inl)
    then have "e = UnboundLocalError" "?avg = None" by (auto dest: main_loop_body_error)
    then show ?thesis using unbound level_avg_None by blast
  next
    case rep
    then have "\<exists>u. True \<and> call u = Inl e"
      by (rule repeat_call_error[where I="\<lambda>_. True"]) auto
    then show ?thesis using call by blast
  qed
qed

lemma main_content_rec_error:
  "main_content_rec fuel cfg forced density = Inl e \<Longrightarrow>
   e = RecursionError \<or>
   (e = UnboundLocalError \<and> (\<exists>s. STRATEGY cfg = Some s \<and> s \<noteq> ''AVG'' \<and> s \<noteq> ''CUSTOM''))"
proof (induction fuel arbitrary: density)
  case 0
  then show ?case by simp
next
  case (Suc fuel)
  show ?case
  proof (cases "STRATEGY cfg")
    case None
    with Suc.prems show ?thesis by (simp add: pruning_pass_def)
  next
    case (Some strategy)
    with Suc.prems obtain key where
      "level_step (main_content_rec fuel cfg forced) strategy (CUSTOM_COEFF cfg) forced key = Inl e"
      by (auto simp: pruning_pass_def dest: for_each_Inl)
    then show ?thesis
      by (rule level_step_error[rotated 2]) (use Some Suc.IH in auto)
  qed
qed

lemma main_content_error:
  assumes "main_content depth_limit cfg forced soup = Inl e"
  shows "e = RecursionError \<or>
   (e = UnboundLocalError \<and> (\<exists>s. STRATEGY cfg = Some s \<and> s \<noteq> ''AVG'' \<and> s \<noteq> ''CUSTOM''))"
proof -
  from assms consider
    (a) d0 where "main_content_rec depth_limit cfg forced d0 = Inl e"
    | (b) d1 where "pruning_pass (main_content_rec depth_limit cfg forced) cfg forced d1 = Inl e"
    by (auto simp: main_content_def Let_def split: sum.splits)
  then show ?thesis
  proof cases
    case a
    then show ?thesis by (rule main_content_rec_error)
  next
    case b
    then have "main_content_rec (Suc depth_limit) cfg forced d1 = Inl e" by simp
    then show ?thesis by (rule main_content_rec_error)
  qed
qed

lemma main_content_enough:
  assumes "max 1 (calc_depth soup) \<le> depth_limit"
  shows "main_content depth_limit cfg forced soup \<noteq> Inl RecursionError"
proof -
  let ?density = "map Some (dedupe_from {} (find_all_direct soup))"
  have dens: "map (\<lambda>entry. Some (fst entry)) (calc_density (find_all_direct soup)) = ?density"
    by (simp add: calc_density_keys comp_def)
  have pos: "0 < depth_limit" using assms by simp
  have "\<forall>nd\<in>set (find_all_direct soup). calc_depth nd < depth_limit"
    using assms by (auto simp: find_all_direct_def dest!: calc_depth_child)
  then have d0: "\<forall>nd. Some nd \<in> set ?density \<longrightarrow> calc_depth nd < depth_limit"
    using dedupe_subset[of "{}" "find_all_direct soup"] by auto
  have first: "main_content_rec depth_limit cfg forced ?density \<noteq> Inl RecursionError"
    using pos d0 by (rule main_content_rec_enough)
  have second: "pruning_pass (main_content_rec depth_limit cfg forced) cfg forced d1 \<noteq> Inl RecursionError"
    if d1: "main_content_rec depth_limit cfg forced ?density = Inr d1" for d1
  proof -
    have rel: "list_all2 prunes_key ?density d1" using d1 by (rule main_content_rec_prunes)
    have "\<forall>nd. Some nd \<in> set d1 \<longrightarrow> calc_depth nd < Suc depth_limit"
    proof (intro allI impI)
      fix nd assume "Some nd \<in> set d1"
      then obtain k where "k \<in> set ?density" "prunes_key k (Some nd)"
        using rel by (metis in_set_conv_nth list_all2_conv_all_nth)
      then obtain c where "k = Some c" "prunes c nd" by (cases k) auto
      then show "calc_depth nd < Suc depth_limit"
        using d0 prunes_depth[of c nd] \<open>k \<in> set ?density\<close> by fastforce
    qed
    then have "main_content_rec (Suc depth_limit) cfg forced d1 \<noteq> Inl RecursionError"
      by (intro main_content_rec_enough) auto
    then show ?thesis by simp
  qed
  show ?thesis
    using first second by (auto simp: main_content_def Let_def dens split: sum.splits)
qed

section \<open>An unrecognized strategy\<close>

lemma rebuild_unchanged: "rebuild seen cs (map Some (dedupe_from seen (filter is_tag cs))) = cs"
proof (induction cs arbitrary: seen)
  case Nil
  show ?case by simp
next
  case (Cons c cs)
  then show ?case by (cases c) auto
qed

lemma set_contents_same: "set_contents nd (contents_of nd) = nd"
  by (cases nd) auto

lemma main_loop_unbound:
  "for_each (main_loop_body forced None) density = Inr keys \<Longrightarrow> keys = map (\<lambda>e. Some (fst e)) density"
  by (induction density arbitrary: keys)
     (auto simp: main_loop_body_def Let_def split: sum.splits if_splits)

lemma main_loop_unbound_exempt:
  "for_each (main_loop_body forced None) density =
     (if \<forall>e\<in>set density. exempt forced (fst e) then Inr (map (\<lambda>e. Some (fst e)) density)
      else Inl UnboundLocalError)"
proof (induction density)
  case Nil
  show ?case by simp
next
  case (Cons e density)
  show ?case
  proof (cases "exempt forced (fst e)")
    case True
    then have "main_loop_body forced None e = Inr (Some (fst e))"
      by (auto simp: main_loop_body_def exempt_def Let_def)
    then show ?thesis using True Cons by simp
  next
    case False
    then have "main_loop_body forced None e = Inl UnboundLocalError"
      by (auto simp: main_loop_body_def exempt_def Let_def)
    then show ?thesis using False by simp
  qed
qed

lemma repeat_call_same:
  "(\<And>u v. call u = Inr v \<Longrightarrow> v = u) \<Longrightarrow> repeat_call k call x = Inr y \<Longrightarrow> y = x"
  by (induction k arbitrary: x) (auto split: sum.splits)

lemma for_each_same:
  "(\<And>u v. f u = Inr v \<Longrightarrow> v = u) \<Longrightarrow> for_each f xs = Inr ys \<Longrightarrow> ys = xs"
  by (induction xs arbitrary: ys) (auto split: sum.splits)

lemma level_step_unrecognized:
  assumes s: "strategy \<noteq> ''AVG''" "strategy \<noteq> ''CUSTOM''"
    and call: "\<And>u v. call u = Inr v \<Longrightarrow> v = u"
    and step: "level_step call strategy coef forced key = Inr key'"
  shows "key' = key"
proof (cases key)
  case None
  with step show ?thesis by (simp add: level_step_def)
next
  case (Some nd)
  let ?density = "calc_density (find_all_direct nd)"
  have avg: "level_avg strategy coef ?density = None" using s by (simp add: level_avg_def)
  from step Some s obtain keys keys' where
    loop: "for_each (main_loop_body forced None) ?density = Inr keys"
    and rep: "repeat_call (length ?density) call keys = Inr keys'"
    and res: "key' = Some (set_contents nd (rebuild {} (contents_of nd) keys'))"
    by (auto simp: level_step_def Let_def avg split: sum.splits)
  have "keys = map Some (dedupe_from {} (filter is_tag (contents_of nd)))"
    using main_loop_unbound[OF loop] by (simp add: calc_density_keys find_all_direct_def comp_def)
  moreover have "keys' = keys" using call rep by (rule repeat_call_same)
  ultimately show ?thesis using res Some by (simp add: rebuild_unchanged set_contents_same)
qed

lemma main_content_rec_unrecognized:
  assumes "STRATEGY cfg \<noteq> Some ''AVG''" "STRATEGY cfg \<noteq> Some ''CUSTOM''"
  shows "main_content_rec fuel cfg forced density = Inr density' \<Longrightarrow> density' = density"
proof (induction fuel arbitrary: density density')
  case 0
  then show ?case by simp
next
  case (Suc fuel)
  show ?case
  proof (cases "STRATEGY cfg")
    case None
    with Suc.prems show ?thesis by (simp add: pruning_pass_def)
  next
    case (Some strategy)
    with Suc.prems have "for_each (level_step (main_content_rec fuel cfg forced) strategy (CUSTOM_COEFF cfg) forced) density = Inr density'"
      by (simp add: pruning_pass_def)
    then show ?thesis
      by (rule for_each_same[rotated]) (rule level_step_unrecognized, use Some assms Suc.IH in auto)
  qed
qed

lemma main_content_unrecognized:
  assumes s: "STRATEGY cfg \<noteq> Some ''AVG''" "STRATEGY cfg \<noteq> Some ''CUSTOM''"
    and run: "main_content depth_limit cfg forced soup = Inr soup'"
  shows "soup' = soup"
proof -
  let ?density = "map Some (dedupe_from {} (find_all_direct soup))"
  have dens: "map (\<lambda>entry. Some (fst entry)) (calc_density (find_all_direct soup)) = ?density"
    by (simp add: calc_density_keys comp_def)
  from run obtain d1 d2 where
    d1: "main_content_rec depth_limit cfg forced ?density = Inr d1"
    and d2: "pruning_pass (main_content_rec depth_limit cfg forced) cfg forced d1 = Inr d2"
    and res: "soup' = set_contents soup (rebuild {} (contents_of soup) d2)"
    by (auto simp: main_content_def Let_def dens split: sum.splits)
  have "d1 = ?density" using s d1 by (rule main_content_rec_unrecognized)
  moreover have "main_content_rec (Suc depth_limit) cfg forced d1 = Inr d2" using d2 by simp
  then have "d2 = d1" by (rule main_content_rec_unrecognized[OF s])
  ultimately show ?thesis using res
    by (simp add: find_all_direct_def rebuild_unchanged set_contents_same)
qed

lemma tested_below_keys:
  "set (tested_below nd) =
     set (dedupe_from {} (find_all_direct nd)) \<union>
     (\<Union>k\<in>set (dedupe_from {} (find_all_direct nd)). set (tested_below k))"
proof (cases nd)
  case (Tag i n a cs)
  have "set (dedupe_from {} (filter is_tag cs)) \<subseteq> set cs"
    using dedupe_subset[of "{}" "filter is_tag cs"] by auto
  then show ?thesis using Tag by (auto simp: find_all_direct_def)
next
  case (NavigableString s)
  then show ?thesis by (simp add: find_all_direct_def)
qed

lemma level_step_exempt_ok:
  assumes s: "strategy \<noteq> ''AVG''" "strategy \<noteq> ''CUSTOM''"
    and call: "\<And>ks. all_exempt forced ks \<Longrightarrow> call ks \<noteq> Inl UnboundLocalError"
    and same: "\<And>u v. call u = Inr v \<Longrightarrow> v = u"
    and key: "all_exempt forced [key]"
  shows "level_step call strategy coef forced key \<noteq> Inl UnboundLocalError"
proof (cases key)
  case None
  then show ?thesis by (simp add: level_step_def)
next
  case (Some nd)
  let ?first = "dedupe_from {} (find_all_direct nd)"
  let ?density = "calc_density (find_all_direct nd)"
  have avg: "level_avg strategy coef ?density = None" using s by (simp add: level_avg_def)
  have ex: "\<forall>t\<in>set (tested_below nd). exempt forced t"
    using key Some by (simp add: all_exempt_def)
  then have keys_ex: "\<forall>e\<in>set ?density. exempt forced (fst e)"
    by (auto simp: calc_density_keys tested_below_keys[of nd])
  have loop: "for_each (main_loop_body forced None) ?density = Inr (map Some ?first)"
    using keys_ex by (simp add: main_loop_unbound_exempt) (simp add: calc_density_keys comp_def)
  have below: "all_exempt forced (map Some ?first)"
    using ex by (auto simp: all_exempt_def tested_below_keys[of nd])
  show ?thesis
  proof
    assume "level_step call strategy coef forced key = Inl UnboundLocalError"
    then have rep: "repeat_call (length ?density) call (map Some ?first) = Inl UnboundLocalError"
      using Some s by (auto simp: level_step_def Let_def avg loop split: sum.splits)
    have "\<exists>u. u = map Some ?first \<and> call u = Inl UnboundLocalError"
      by (rule repeat_call_error[OF rep, where I="\<lambda>u. u = map Some ?first"]) (auto dest: same)
    then show False using call[OF below] by simp
  qed
qed

lemma level_step_exempt_bad:
  assumes s: "strategy \<noteq> ''AVG''" "strategy \<noteq> ''CUSTOM''"
    and call: "\<And>ks r. \<not> all_exempt forced ks \<Longrightarrow> call ks \<noteq> Inr r"
    and key: "\<not> all_exempt forced [key]"
  shows "level_step call strategy coef forced key \<noteq> Inr r"
proof (cases key)
  case None
  with key show ?thesis by (simp add: all_exempt_def)
next
  case (Some nd)
  let ?first = "dedupe_from {} (find_all_direct nd)"
  let ?density = "calc_density (find_all_direct nd)"
  have avg: "level_avg strategy coef ?density = None" using s by (simp add: level_avg_def)
  from key Some obtain t where t: "t \<in> set (tested_below nd)" "\<not> exempt forced t"
    by (auto simp: all_exempt_def)
  show ?thesis
  proof
    assume step: "level_step call strategy coef forced key = Inr r"
    then obtain keys where
      loop: "for_each (main_loop_body forced None) ?density = Inr keys"
      and rep: "\<exists>keys'. repeat_call (length ?density) call keys = Inr keys'"
      using Some s by (auto simp: level_step_def Let_def avg split: sum.splits)
    from loop have keys_ex: "\<forall>e\<in>set ?density. exempt forced (fst e)"
      by (simp add: main_loop_unbound_exempt split: if_splits)
    then have first_ex: "\<forall>k\<in>set ?first. exempt forced k"
      by (simp add: calc_density_keys)
    have keys: "keys = map Some ?first"
      using main_loop_unbound[OF loop] by (simp add: calc_density_keys comp_def)
    from t first_ex obtain k where k: "k \<in> set ?first" "t \<in> set (tested_below k)"
      by (auto simp: tested_below_keys[of nd])
    then have bad: "\<not> all_exempt forced (map Some ?first)"
      using t(2) by (auto simp: all_exempt_def)
    from k(1) have "length ?density = Suc (length ?density - 1)"
      by (cases ?first) (auto simp: calc_density_keys)
    then obtain m where m: "length ?density = Suc m" by blast
    from rep obtain keys' where "repeat_call (Suc m) call (map Some ?first) = Inr keys'"
      unfolding m keys by blast
    then obtain v where "call (map Some ?first) = Inr v"
      by (auto split: sum.splits)
    then show False using call[OF bad] by simp
  qed
qed

lemma all_exempt_member: "all_exempt forced ks \<longleftrightarrow> (\<forall>k\<in>set ks. all_exempt forced [k])"
  by (auto simp: all_exempt_def)

lemma main_content_rec_exempt_ok:
  assumes "STRATEGY cfg \<noteq> Some ''AVG''" "STRATEGY cfg \<noteq> Some ''CUSTOM''"
  shows "all_exempt forced ks \<Longrightarrow> main_content_rec fuel cfg forced ks \<noteq> Inl UnboundLocalError"
proof (induction fuel arbitrary: ks)
  case 0
  show ?case by simp
next
  case (Suc fuel)
  show ?case
  proof (cases "STRATEGY cfg")
    case None
    then show ?thesis by (simp add: pruning_pass_def)
  next
    case (Some strategy)
    have "level_step (main_content_rec fuel cfg forced) strategy (CUSTOM_COEFF cfg) forced k \<noteq> Inl UnboundLocalError"
      if "k \<in> set ks" for k
    proof (rule level_step_exempt_ok)
      show "strategy \<noteq> ''AVG''" "strategy \<noteq> ''CUSTOM''" using assms Some by auto
      show "\<And>ks. all_exempt forced ks \<Longrightarrow> main_content_rec fuel cfg forced ks \<noteq> Inl UnboundLocalError"
        by (rule Suc.IH)
      show "\<And>u v. main_content_rec fuel cfg forced u = Inr v \<Longrightarrow> v = u"
        by (rule main_content_rec_unrecognized[OF assms])
      show "all_exempt forced [k]" using Suc.prems that all_exempt_member by blast
    qed
    then show ?thesis using Some by (auto simp: pruning_pass_def dest: for_each_Inl)
  qed
qed

lemma list_all2_left: "list_all2 R xs ys \<Longrightarrow> x \<in> set xs \<Longrightarrow> \<exists>y. R x y"
  by (induction xs ys rule: list_all2_induct) auto

lemma main_content_rec_exempt_bad:
  assumes "STRATEGY cfg = Some strategy" "strategy \<noteq> ''AVG''" "strategy \<noteq> ''CUSTOM''"
  shows "\<not> all_exempt forced ks \<Longrightarrow> main_content_rec fuel cfg forced ks \<noteq> Inr r"
proof (induction fuel arbitrary: ks r)
  case 0
  show ?case by simp
next
  case (Suc fuel)
  from Suc.prems obtain k where k: "k \<in> set ks" "\<not> all_exempt forced [k]"
    using all_exempt_member by blast
  show ?case
  proof
    assume "main_content_rec (Suc fuel) cfg forced ks = Inr r"
    then have "list_all2 (\<lambda>x y. level_step (main_content_rec fuel cfg forced) strategy (CUSTOM_COEFF cfg) forced x = Inr y) ks r"
      using assms(1) by (simp add: pruning_pass_def for_each_Inr)
    with k(1) obtain y where "level_step (main_content_rec fuel cfg forced) strategy (CUSTOM_COEFF cfg) forced k = Inr y"
      by (blast dest: list_all2_left)
    moreover have "level_step (main_content_rec fuel cfg forced) strategy (CUSTOM_COEFF cfg) forced k \<noteq> Inr y"
      by (rule level_step_exempt_bad[OF assms(2,3) _ k(2)]) (rule Suc.IH)
    ultimately show False by simp
  qed
qed


section \<open>Children above the threshold\<close>








section \<open>Replacing and splitting\<close>

lemma strip_all_space:
  assumes "\<forall>c\<in>set s. is_space c"
  shows "strip s = []"
proof -
  have d: "dropWhile is_space s = []" using assms by simp
  show ?thesis unfolding strip_def d by simp
qed


lemma split_not_Nil: "split sep s \<noteq> []"
  by (induction sep s rule: split.induct) (auto split: list.splits)

lemma join_Cons: "pieces \<noteq> [] \<Longrightarrow> join sep (piece # pieces) = piece @ sep @ join sep pieces"
  by (cases pieces) auto

lemma replace_scan_join_split: "old \<noteq> [] \<Longrightarrow> replace_scan old new s = join new (split old s)"
proof (induction old s rule: split.induct)
  case (1 sep)
  then show ?case by simp
next
  case (2 sep c s)
  show ?case
  proof (cases "prefix sep (c # s)")
    case True
    then show ?thesis using 2 by (simp add: join_Cons split_not_Nil)
  next
    case False
    obtain piece pieces where sp: "split sep s = piece # pieces"
      using split_not_Nil[of sep s] by (cases "split sep s") auto
    show ?thesis using False 2 sp by (cases pieces) auto
  qed
qed

lemma join_split: "sep \<noteq> [] \<Longrightarrow> join sep (split sep s) = s"
proof (induction sep s rule: split.induct)
  case (1 sep)
  then show ?case by simp
next
  case (2 sep c s)
  show ?case
  proof (cases "prefix sep (c # s)")
    case True
    then obtain r where r: "c # s = sep @ r" by (auto simp: prefix_def)
    then have d: "drop (length sep) (c # s) = r" by (metis append_eq_conv_conj)
    have "split sep (c # s) = [] # split sep r" using True 2(3) d by simp
    moreover have "join sep (split sep r) = r" using 2(1) True 2(3) d by simp
    ultimately show ?thesis using r by (simp add: join_Cons split_not_Nil)
  next
    case False
    obtain piece pieces where sp: "split sep s = piece # pieces"
      using split_not_Nil[of sep s] by (cases "split sep s") auto
    show ?thesis using False 2 sp by (cases pieces) auto
  qed
qed


section \<open>The lookup of link markers\<close>

lemma get_urls_loop_step:
  "map_of (attrs_of url) ''href'' \<noteq> None \<Longrightarrow>
   get_urls_loop d (url # urls) acc = get_urls_loop d urls (AList.update (marker d url) (text_of url) acc)"
  by (auto simp: href_of_def marker_def)

lemma get_urls_loop_lookup:
  assumes "\<forall>u\<in>set urls. map_of (attrs_of u) ''href'' \<noteq> None"
  shows "\<exists>r. get_urls_loop d urls acc = Inr r \<and>
             map_of r = map_of acc ++ map_of (rev (map (\<lambda>u. (marker d u, text_of u)) urls)) \<and>
             fst ` set r = fst ` set acc \<union> marker d ` set urls \<and>
             (distinct (map fst acc) \<longrightarrow> distinct (map fst r))"
  using assms
proof (induction urls arbitrary: acc)
  case Nil
  then show ?case by simp
next
  case (Cons url urls)
  let ?acc = "AList.update (marker d url) (text_of url) acc"
  from Cons.prems have "\<forall>u\<in>set urls. map_of (attrs_of u) ''href'' \<noteq> None" by simp
  from Cons.IH[OF this, of ?acc] obtain r where r:
    "get_urls_loop d urls ?acc = Inr r"
    "map_of r = map_of ?acc ++ map_of (rev (map (\<lambda>u. (marker d u, text_of u)) urls))"
    "fst ` set r = fst ` set ?acc \<union> marker d ` set urls"
    "distinct (map fst ?acc) \<longrightarrow> distinct (map fst r)"
    by blast
  have step: "get_urls_loop d (url # urls) acc = Inr r"
    using Cons.prems r(1) by (simp add: get_urls_loop_step del: get_urls_loop.simps)
  have m: "map_of r = map_of acc ++ map_of (rev (map (\<lambda>u. (marker d u, text_of u)) (url # urls)))"
    unfolding r(2) by (rule ext) (auto simp: map_add_def update_conv' split: option.splits)
  have k: "fst ` set r = fst ` set acc \<union> marker d ` set (url # urls)"
  proof -
    have "fst ` set ?acc = insert (marker d url) (fst ` set acc)" by (simp add: dom_update)
    then show ?thesis using r(3) by auto
  qed
  have dist: "distinct (map fst acc) \<longrightarrow> distinct (map fst r)"
    using r(4) by (simp add: distinct_update)
  show ?case using step m k dist by blast
qed



lemma get_urls_loop_error: "get_urls_loop d urls acc = Inl e \<Longrightarrow> e = KeyError"
  by (induction urls arbitrary: acc) (auto simp: href_of_def split: option.splits if_splits)

lemma get_urls_loop_missing:
  "a \<in> set urls \<Longrightarrow> map_of (attrs_of a) ''href'' = None \<Longrightarrow> get_urls_loop d urls acc = Inl KeyError"
proof (induction urls arbitrary: acc)
  case Nil
  then show ?case by simp
next
  case (Cons url urls)
  show ?case
  proof (cases "map_of (attrs_of url) ''href''")
    case None
    then show ?thesis by (simp add: href_of_def)
  next
    case (Some h)
    with Cons.prems have "a \<in> set urls" by auto
    then show ?thesis using Cons.IH Cons.prems(2) Some by (simp add: href_of_def)
  qed
qed


lemmas url_simps =
  get_urls_def domain_name_def match_scheme_def href_of_def re_sub_def regex_special_def
  replace_def


lemmas run_simps =
  main_content_def find_all_direct_def pruning_pass_def level_step_def calc_density_def
  main_loop_body_def level_avg_def find_all_def elements_def numeral_nat


section \<open>Primary content tags\<close>

text \<open>
  C1 (as amended). The main loop never decomposes an element tagged \<open>p\<close>, \<open>h1\<close> or
  \<open>h2\<close>: when \<open>main_content\<close> returns, every such element whose parent is still in the
  returned tree is still in it as well. Element identities are taken to be distinct.
\<close>

theorem content_tags_survive_with_parent:
  assumes run: "main_content depth_limit cfg forced soup = Inr soup'"
    and ids: "distinct (map nid (elements soup))"
    and parent: "m \<in> set (elements soup)"
    and child: "c \<in> set (find_all_direct m)"
    and tag: "name_of c = ''p'' \<or> name_of c = ''h1'' \<or> name_of c = ''h2''"
    and kept: "nid m \<in> nid ` set (elements soup')"
  shows "nid c \<in> nid ` set (elements soup')"
proof -
  have pr: "prunes soup soup'" using run by (rule main_content_prunes)
  from kept obtain m' where m': "m' \<in> set (elements soup')" "nid m' = nid m" by auto
  from prunes_elements[OF pr m'(1)] obtain m0 where m0: "m0 \<in> set (elements soup)" "prunes m0 m'"
    by blast
  have "is_tag m0" using m0(1) by (simp add: elements_iff)
  then have "nid m0 = nid m" using m0(2) m'(2) by (simp add: prunes_nid)
  then have "m0 = m" using ids m0(1) parent by (meson distinct_map inj_onD)
  with m0 have "prunes_list (contents_of m) (contents_of m')" by (simp add: prunes_contents)
  moreover have "c \<in> set (contents_of m)" "is_tag c" using child by (simp_all add: find_all_direct_def)
  moreover have "primary_tag c" using tag by (simp add: primary_tag_def)
  ultimately obtain c' where c': "c' \<in> set (contents_of m')" "prunes c c'"
    using prunes_list_primary by blast
  then have "is_tag c'" "nid c' = nid c" using \<open>is_tag c\<close> by (simp_all add: prunes_same prunes_nid)
  then have "c' \<in> set (find_all_direct m')" using c'(1) by (simp add: find_all_direct_def)
  then have "c' \<in> set (elements soup')" using m'(1) by (rule child_in_elements[rotated])
  then have "nid c' \<in> nid ` set (elements soup')" by (rule imageI)
  then show ?thesis using \<open>nid c' = nid c\<close> by simp
qed


theorem content_tags_survive_with_parent_witness:
  "main_content 4 custom_half False direct_paragraph_soup =
     Inr (Tag 0 ''[document]'' []
            [Tag 1 ''body'' []
               [Tag 2 ''p'' [] [NavigableString ''hi''],
                Tag 4 ''section'' [] [Tag 5 ''div'' [] [Tag 6 ''div'' [] []]]]])
   \<and> 2 \<in> nid ` set (elements (Tag 0 ''[document]'' []
            [Tag 1 ''body'' []
               [Tag 2 ''p'' [] [NavigableString ''hi''],
                Tag 4 ''section'' [] [Tag 5 ''div'' [] [Tag 6 ''div'' [] []]]]]))"
proof -
  let ?out = "Tag 0 ''[document]'' []
            [Tag 1 ''body'' []
               [Tag 2 ''p'' [] [NavigableString ''hi''],
                Tag 4 ''section'' [] [Tag 5 ''div'' [] [Tag 6 ''div'' [] []]]]]"
  let ?body = "Tag 1 ''body'' []
          [Tag 2 ''p'' [] [NavigableString ''hi''],
           Tag 3 ''div'' [] [],
           Tag 4 ''section'' [] [Tag 5 ''div'' [] [Tag 6 ''div'' [] []]]]"
  let ?p = "Tag 2 ''p'' [] [NavigableString ''hi'']"
  have run: "main_content 4 custom_half False direct_paragraph_soup = Inr ?out"
    by (simp add: custom_half_def direct_paragraph_soup_def run_simps)
  have ids: "distinct (map nid (elements direct_paragraph_soup))"
    by (simp add: direct_paragraph_soup_def elements_def)
  have parent: "?body \<in> set (elements direct_paragraph_soup)"
    by (simp add: direct_paragraph_soup_def elements_def)
  have child: "?p \<in> set (find_all_direct ?body)"
    by (simp add: find_all_direct_def)
  have tag: "name_of ?p = ''p'' \<or> name_of ?p = ''h1'' \<or> name_of ?p = ''h2''"
    by simp
  have kept: "nid ?body \<in> nid ` set (elements ?out)"
    by (simp add: elements_def)
  have "nid ?p \<in> nid ` set (elements ?out)"
    using content_tags_survive_with_parent[OF run ids parent child tag kept] .
  with run show ?thesis by simp
qed

text \<open>
  C1 as stated fails: a paragraph below an element that the main loop decomposes leaves
  the tree with it. Here the \<open>div\<close> (depth 2) is below the threshold 2.5 of its level.
\<close>

theorem content_tag_removed_counterexample:
  "Tag 3 ''p'' [] [NavigableString ''hi''] \<in> set (elements nested_paragraph_soup)
   \<and> main_content 5 custom_half False nested_paragraph_soup =
       Inr (Tag 0 ''[document]'' []
              [Tag 1 ''body'' []
                 [Tag 4 ''section'' [] [Tag 5 ''div'' [] [Tag 6 ''div'' [] [Tag 7 ''div'' [] []]]]]])
   \<and> 3 \<notin> nid ` set (elements (Tag 0 ''[document]'' []
              [Tag 1 ''body'' []
                 [Tag 4 ''section'' [] [Tag 5 ''div'' [] [Tag 6 ''div'' [] [Tag 7 ''div'' [] []]]]]]))"
  by (simp add: custom_half_def nested_paragraph_soup_def run_simps)


section \<open>Termination and recursion depth\<close>

text \<open>
  C3 (as amended). \<open>main_content\<close> returns on every tree, and its self-calls nest no
  deeper than the depth of the tree, or one level for a tree of depth 0: with that many
  nested self-calls allowed the run never exceeds the limit, so it ends with the tree
  or with the unbound-variable error of an unrecognized strategy.
\<close>

theorem main_content_terminates_within_depth:
  assumes "max 1 (calc_depth soup) \<le> depth_limit"
  shows "(\<exists>soup'. main_content depth_limit cfg forced soup = Inr soup') \<or>
         main_content depth_limit cfg forced soup = Inl UnboundLocalError"
proof (cases "main_content depth_limit cfg forced soup")
  case (Inl e)
  then show ?thesis using main_content_enough[OF assms, of cfg forced] main_content_error[OF Inl] by auto
next
  case (Inr soup')
  then show ?thesis by simp
qed


theorem main_content_terminates_within_depth_witness:
  "max 1 (calc_depth nested_paragraph_soup) \<le> 5 \<and>
   ((\<exists>soup'. main_content 5 custom_half False nested_paragraph_soup = Inr soup') \<or>
    main_content 5 custom_half False nested_paragraph_soup = Inl UnboundLocalError)"
proof -
  have h: "max 1 (calc_depth nested_paragraph_soup) \<le> 5"
    by (simp add: nested_paragraph_soup_def)
  show ?thesis
    using h main_content_terminates_within_depth[OF h, of custom_half False] by simp
qed

text \<open>
  C3 as stated fails on the empty document: its depth is 0, and the entry point still
  makes its one self-call, so a limit of 0 nested self-calls is exceeded.
\<close>

theorem recursion_depth_counterexample:
  "calc_depth empty_soup = 0 \<and>
   main_content (calc_depth empty_soup) custom_half False empty_soup = Inl RecursionError \<and>
   main_content 1 custom_half False empty_soup = Inr empty_soup"
  by (simp add: empty_soup_def custom_half_def run_simps)


section \<open>The CUSTOM threshold with coefficient 1\<close>





section \<open>Configuration errors\<close>

text \<open>
  C9 (as amended). The program does not validate the strategy. Without a strategy
  (\<open>None\<close>) the pruning block is skipped and the tree comes back unchanged. With any
  other value than AVG and CUSTOM no node is removed either: \<open>main_content\<close> returns
  the tree unchanged exactly when every node its main loop tests is exempt, and fails
  with the unbound-variable error of line 174 exactly when one of them is not.
\<close>

theorem unrecognized_strategy_outcome:
  assumes s: "STRATEGY cfg \<noteq> Some ''AVG''" "STRATEGY cfg \<noteq> Some ''CUSTOM''"
    and depth: "max 1 (calc_depth soup) \<le> depth_limit"
  shows "main_content depth_limit cfg forced soup =
           (if STRATEGY cfg = None \<or> (\<forall>nd\<in>set (tested soup). exempt forced nd) then Inr soup
            else Inl UnboundLocalError)"
proof -
  let ?first = "dedupe_from {} (find_all_direct soup)"
  let ?density = "map Some ?first"
  have dens: "map (\<lambda>entry. Some (fst entry)) (calc_density (find_all_direct soup)) = ?density"
    by (simp add: calc_density_keys comp_def)
  have all: "all_exempt forced ?density \<longleftrightarrow> (\<forall>nd\<in>set (tested soup). exempt forced nd)"
    by (auto simp: all_exempt_def tested_def)
  have no_rec: "main_content depth_limit cfg forced soup \<noteq> Inl RecursionError"
    using depth by (rule main_content_enough)
  show ?thesis
  proof (cases "STRATEGY cfg = None \<or> (\<forall>nd\<in>set (tested soup). exempt forced nd)")
    case True
    have "main_content depth_limit cfg forced soup \<noteq> Inl UnboundLocalError"
    proof (cases "STRATEGY cfg")
      case None
      then show ?thesis using main_content_error[of depth_limit cfg forced soup UnboundLocalError] by auto
    next
      case (Some strategy)
      with True have ok: "all_exempt forced ?density" using all by simp
      have first: "main_content_rec depth_limit cfg forced ?density \<noteq> Inl UnboundLocalError"
        using ok by (rule main_content_rec_exempt_ok[OF s])
      have second: "pruning_pass (main_content_rec depth_limit cfg forced) cfg forced d1 \<noteq> Inl UnboundLocalError"
        if "main_content_rec depth_limit cfg forced ?density = Inr d1" for d1
      proof -
        have "d1 = ?density" using s that by (rule main_content_rec_unrecognized)
        then have "main_content_rec (Suc depth_limit) cfg forced d1 \<noteq> Inl UnboundLocalError"
          using ok main_content_rec_exempt_ok[OF s] by blast
        then show ?thesis by simp
      qed
      show ?thesis using first second
        by (auto simp: main_content_def Let_def dens split: sum.splits)
    qed
    then obtain soup' where "main_content depth_limit cfg forced soup = Inr soup'"
      using no_rec main_content_error[of depth_limit cfg forced soup]
      by (cases "main_content depth_limit cfg forced soup") auto
    then show ?thesis using True main_content_unrecognized[OF s] by auto
  next
    case False
    then obtain strategy where st: "STRATEGY cfg = Some strategy" by auto
    then have st2: "strategy \<noteq> ''AVG''" "strategy \<noteq> ''CUSTOM''" using s by auto
    from False have bad: "\<not> all_exempt forced ?density" using all by simp
    have "main_content_rec depth_limit cfg forced ?density \<noteq> Inr d1" for d1
      using bad by (rule main_content_rec_exempt_bad[OF st st2])
    then have "main_content depth_limit cfg forced soup \<noteq> Inr soup'" for soup'
      by (auto simp: main_content_def Let_def dens split: sum.splits)
    then obtain e where e: "main_content depth_limit cfg forced soup = Inl e"
      by (cases "main_content depth_limit cfg forced soup") auto
    then have "e = UnboundLocalError" using no_rec main_content_error[OF e] by auto
    then show ?thesis using e False by simp
  qed
qed

theorem unrecognized_strategy_outcome_witness:
  "STRATEGY median_config \<noteq> Some ''AVG'' \<and> STRATEGY median_config \<noteq> Some ''CUSTOM'' \<and>
   max 1 (calc_depth nested_paragraph_soup) \<le> 5 \<and>
   tested nested_paragraph_soup =
     [Tag 2 ''div'' [] [Tag 3 ''p'' [] [NavigableString ''hi'']],
      Tag 3 ''p'' [] [NavigableString ''hi''],
      Tag 4 ''section'' [] [Tag 5 ''div'' [] [Tag 6 ''div'' [] [Tag 7 ''div'' [] []]]],
      Tag 5 ''div'' [] [Tag 6 ''div'' [] [Tag 7 ''div'' [] []]],
      Tag 6 ''div'' [] [Tag 7 ''div'' [] []],
      Tag 7 ''div'' [] []] \<and>
   \<not> exempt False (Tag 2 ''div'' [] [Tag 3 ''p'' [] [NavigableString ''hi'']]) \<and>
   main_content 5 median_config False nested_paragraph_soup = Inl UnboundLocalError \<and>
   max 1 (calc_depth paragraph_only_soup) \<le> 3 \<and>
   tested paragraph_only_soup = [Tag 2 ''p'' [] [NavigableString ''hi'']] \<and>
   exempt False (Tag 2 ''p'' [] [NavigableString ''hi'']) \<and>
   main_content 3 median_config False paragraph_only_soup = Inr paragraph_only_soup"
proof -
  have s1: "STRATEGY median_config \<noteq> Some ''AVG''" by (simp add: median_config_def)
  have s2: "STRATEGY median_config \<noteq> Some ''CUSTOM''" by (simp add: median_config_def)
  have s3: "STRATEGY median_config \<noteq> None" by (simp add: median_config_def)
  have d1: "max 1 (calc_depth nested_paragraph_soup) \<le> 5" by (simp add: nested_paragraph_soup_def)
  have d2: "max 1 (calc_depth paragraph_only_soup) \<le> 3" by (simp add: paragraph_only_soup_def)
  have t1: "tested nested_paragraph_soup =
     [Tag 2 ''div'' [] [Tag 3 ''p'' [] [NavigableString ''hi'']],
      Tag 3 ''p'' [] [NavigableString ''hi''],
      Tag 4 ''section'' [] [Tag 5 ''div'' [] [Tag 6 ''div'' [] [Tag 7 ''div'' [] []]]],
      Tag 5 ''div'' [] [Tag 6 ''div'' [] [Tag 7 ''div'' [] []]],
      Tag 6 ''div'' [] [Tag 7 ''div'' [] []],
      Tag 7 ''div'' [] []]"
    by (simp add: tested_def nested_paragraph_soup_def find_all_direct_def)
  have e1: "\<not> exempt False (Tag 2 ''div'' [] [Tag 3 ''p'' [] [NavigableString ''hi'']])"
    by (simp add: exempt_def find_all_def)
  have t2: "tested paragraph_only_soup = [Tag 2 ''p'' [] [NavigableString ''hi'']]"
    by (simp add: tested_def paragraph_only_soup_def find_all_direct_def)
  have e2: "exempt False (Tag 2 ''p'' [] [NavigableString ''hi''])"
    by (simp add: exempt_def)
  have r1: "main_content 5 median_config False nested_paragraph_soup = Inl UnboundLocalError"
    using unrecognized_strategy_outcome[OF s1 s2 d1, of False] s3 e1 by (simp add: t1)
  have r2: "main_content 3 median_config False paragraph_only_soup = Inr paragraph_only_soup"
    using unrecognized_strategy_outcome[OF s1 s2 d2, of False] e2 by (simp add: t2)
  show ?thesis using s1 s2 d1 d2 t1 t2 e1 e2 r1 r2 by simp
qed

text \<open>
  C9 as stated fails: with the strategy \<open>MEDIAN\<close> a document of paragraphs is returned
  without any error, and on another document the error only comes when the main loop
  reads the threshold for a node that is not exempt.
\<close>

theorem unrecognized_strategy_counterexample:
  "STRATEGY median_config = Some ''MEDIAN'' \<and>
   main_content 2 median_config False paragraph_only_soup = Inr paragraph_only_soup \<and>
   main_content 5 median_config False nested_paragraph_soup = Inl UnboundLocalError"
  by (simp add: median_config_def paragraph_only_soup_def nested_paragraph_soup_def run_simps)

section \<open>Separating the paragraphs\<close>

text \<open>
  C6 (as amended). For a paragraph whose text is not empty and not only white space, the
  step surrounds every occurrence of the trimmed text that a scan from the left finds
  (occurrences do not overlap) with line breaks: the running text is the pieces between
  those occurrences joined by the trimmed text, and the result is the same pieces joined
  by the trimmed text between two line breaks.
\<close>

theorem paragraph_every_occurrence:
  assumes "text_of p \<noteq> []" and "strip (text_of p) \<noteq> []"
  shows "separate_paragraph p string =
           join ([NL] @ strip (text_of p) @ [NL]) (split (strip (text_of p)) string)
         \<and> join (strip (text_of p)) (split (strip (text_of p)) string) = string"
  using assms by (simp add: separate_paragraph_def replace_def replace_scan_join_split join_split)

theorem paragraph_every_occurrence_witness:
  "text_of (Tag 1 ''p'' [] [NavigableString ''ab '']) \<noteq> [] \<and>
   strip (text_of (Tag 1 ''p'' [] [NavigableString ''ab ''])) \<noteq> [] \<and>
   separate_paragraph (Tag 1 ''p'' [] [NavigableString ''ab '']) ''ab ab'' =
     join ([NL] @ strip (text_of (Tag 1 ''p'' [] [NavigableString ''ab ''])) @ [NL])
       (split (strip (text_of (Tag 1 ''p'' [] [NavigableString ''ab '']))) ''ab ab'') \<and>
   join (strip (text_of (Tag 1 ''p'' [] [NavigableString ''ab ''])))
     (split (strip (text_of (Tag 1 ''p'' [] [NavigableString ''ab '']))) ''ab ab'') = ''ab ab''"
proof -
  let ?p = "Tag 1 ''p'' [] [NavigableString ''ab '']"
  have a: "text_of ?p \<noteq> []" by simp
  have b: "strip (text_of ?p) \<noteq> []" by (simp add: strip_def is_space_def)
  show ?thesis using paragraph_every_occurrence[OF a b, of "''ab ab''"] a b by simp
qed


text \<open>
  C6 as stated fails: \<open>str.replace\<close> without a count replaces the second occurrence of
  the paragraph text as well.
\<close>

theorem paragraph_first_occurrence_counterexample:
  "separate_paragraph (Tag 1 ''p'' [] [NavigableString ''ab'']) ''ab ab'' =
     [NL, CHR ''a'', CHR ''b'', NL, CHR '' '', NL, CHR ''a'', CHR ''b'', NL] \<and>
   separate_paragraph (Tag 1 ''p'' [] [NavigableString ''ab'']) ''ab ab'' \<noteq>
     [NL, CHR ''a'', CHR ''b'', NL, CHR '' '', CHR ''a'', CHR ''b'']"
  by (simp add: separate_paragraph_def strip_def is_space_def replace_def)


text \<open>
  C10. A paragraph whose text is not empty but only white space is not skipped: its
  trimmed text is empty, and replacing the empty string puts the pair of line breaks
  before every character of the running text and at its end.
\<close>

theorem whitespace_paragraph_breaks_everywhere:
  assumes "text_of p \<noteq> []" and "\<forall>c\<in>set (text_of p). is_space c"
  shows "separate_paragraph p string = [NL, NL] @ concat (map (\<lambda>c. c # [NL, NL]) string)"
  using assms by (simp add: separate_paragraph_def strip_all_space replace_def)

theorem whitespace_paragraph_breaks_everywhere_witness:
  "text_of (Tag 1 ''p'' [] [NavigableString ''  '']) = ''  '' \<and>
   is_space CHR '' '' \<and>
   separate_paragraph (Tag 1 ''p'' [] [NavigableString ''  '']) ''ab'' =
     [NL, NL, CHR ''a'', NL, NL, CHR ''b'', NL, NL]"
proof -
  let ?p = "Tag 1 ''p'' [] [NavigableString ''  '']"
  have sp: "is_space CHR '' ''" by (simp add: is_space_def)
  have a: "text_of ?p \<noteq> []" by simp
  have b: "\<forall>c\<in>set (text_of ?p). is_space c" using sp by simp
  show ?thesis using whitespace_paragraph_breaks_everywhere[OF a b, of "''ab''"] sp by simp
qed


section \<open>Link markers\<close>

text \<open>
  C7 (as amended). The lookup built by \<open>_get_urls\<close> is keyed by the bracketed URL, not
  by the display text: when every anchor has a target, its keys are the bracketed URLs of
  all the anchors, each once, and a bracketed URL is mapped to the text of the last anchor
  that has it. Two anchors with the same text whose bracketed URLs differ therefore both
  stay in the lookup.
\<close>

theorem get_urls_keyed_by_target:
  assumes "domain_name domain = Inr d"
    and "\<forall>u\<in>set urls. map_of (attrs_of u) ''href'' \<noteq> None"
  shows "\<exists>r. get_urls urls domain = Inr r \<and>
             distinct (map fst r) \<and>
             fst ` set r = marker d ` set urls \<and>
             map_of r = map_of (rev (map (\<lambda>u. (marker d u, text_of u)) urls))"
  using get_urls_loop_lookup[OF assms(2), of d "[]"] assms(1)
  by (auto simp: get_urls_def)


theorem get_urls_keyed_by_target_witness:
  "domain_name ''https://example.com/blog'' = Inr ''https://example.com'' \<and>
   map_of (attrs_of about_a) ''href'' = Some ''/a'' \<and>
   map_of (attrs_of about_b) ''href'' = Some ''/b'' \<and>
   (\<exists>r. get_urls [about_a, about_b] ''https://example.com/blog'' = Inr r \<and>
        distinct (map fst r) \<and>
        fst ` set r = marker ''https://example.com'' ` set [about_a, about_b] \<and>
        map_of r = map_of (rev (map (\<lambda>u. (marker ''https://example.com'' u, text_of u))
                                  [about_a, about_b])))"
proof -
  have d: "domain_name ''https://example.com/blog'' = Inr ''https://example.com''"
    by (simp add: url_simps)
  have a: "map_of (attrs_of about_a) ''href'' = Some ''/a''" by (simp add: about_a_def)
  have b: "map_of (attrs_of about_b) ''href'' = Some ''/b''" by (simp add: about_b_def)
  have h: "\<forall>u\<in>set [about_a, about_b]. map_of (attrs_of u) ''href'' \<noteq> None"
    using a b by simp
  show ?thesis using get_urls_keyed_by_target[OF d h] d a b by simp
qed

text \<open>
  C7 as stated fails: two anchors with the text \<open>About\<close> and different targets give two
  entries, and annotating inserts both markers after the text, the later anchor's first.
\<close>

theorem identical_text_counterexample:
  "get_urls [about_a, about_b] ''https://example.com/blog'' =
     Inr [(''[https://example.com/a]'', ''About''), (''[https://example.com/b]'', ''About'')] \<and>
   add_urls ''About us''
     [(''[https://example.com/a]'', ''About''), (''[https://example.com/b]'', ''About'')] =
     Inr ''About [https://example.com/b] [https://example.com/a] us''"
  by (simp add: about_a_def about_b_def url_simps)


text \<open>
  C8 (as amended). An anchor without a target attribute makes \<open>_get_urls\<close>, and with it
  \<open>prepare_text\<close>, fail with a \<open>KeyError\<close>. An anchor whose target is present and empty
  has the bracketed normalized base domain alone as its key in the lookup. When it is
  the only anchor and its text has no character that is special in a regular expression,
  annotation replaces the occurrences of that text by the text, a space and that key.
\<close>

theorem anchor_without_target:
  assumes "domain_name domain = Inr d"
  shows "(a \<in> set (find_all ''a'' soup) \<and> map_of (attrs_of a) ''href'' = None \<longrightarrow>
            get_urls (find_all ''a'' soup) domain = Inl KeyError \<and>
            prepare_text domain soup max_length = Inl KeyError) \<and>
         ((\<forall>u\<in>set urls. map_of (attrs_of u) ''href'' \<noteq> None) \<and> b \<in> set urls \<and>
          map_of (attrs_of b) ''href'' = Some [] \<longrightarrow>
            (\<exists>r t. get_urls urls domain = Inr r \<and> map_of r (''['' @ d @ '']'') = Some t)) \<and>
         (map_of (attrs_of b) ''href'' = Some [] \<and> \<not> list_ex regex_special (text_of b) \<and>
          CHR 0x5C \<notin> set d \<longrightarrow>
            get_urls [b] domain = Inr [(''['' @ d @ '']'', text_of b)] \<and>
            add_urls text [(''['' @ d @ '']'', text_of b)] =
              Inr (replace (text_of b) (text_of b @ '' ['' @ d @ '']'') text))"
proof (intro conjI impI)
  assume "a \<in> set (find_all ''a'' soup) \<and> map_of (attrs_of a) ''href'' = None"
  then have "get_urls_loop d (find_all ''a'' soup) [] = Inl KeyError"
    by (blast intro: get_urls_loop_missing)
  then show g: "get_urls (find_all ''a'' soup) domain = Inl KeyError"
    using assms by (simp add: get_urls_def)
  then show "prepare_text domain soup max_length = Inl KeyError"
    by (simp add: prepare_text_def Let_def)
next
  assume h: "(\<forall>u\<in>set urls. map_of (attrs_of u) ''href'' \<noteq> None) \<and> b \<in> set urls \<and>
          map_of (attrs_of b) ''href'' = Some []"
  then have all: "\<forall>u\<in>set urls. map_of (attrs_of u) ''href'' \<noteq> None" by blast
  obtain r where r: "get_urls_loop d urls [] = Inr r" "fst ` set r = marker d ` set urls"
    using get_urls_loop_lookup[OF all, of d "[]"] by auto
  have "marker d b = ''['' @ d @ '']''" using h by (simp add: marker_def)
  then have "''['' @ d @ '']'' \<in> fst ` set r" using r(2) h by force
  then obtain t where "map_of r (''['' @ d @ '']'') = Some t"
    by (metis domD dom_map_of_conv_image_fst)
  then show "\<exists>r t. get_urls urls domain = Inr r \<and> map_of r (''['' @ d @ '']'') = Some t"
    using r(1) assms by (auto simp: get_urls_def)
next
  assume h: "map_of (attrs_of b) ''href'' = Some [] \<and> \<not> list_ex regex_special (text_of b) \<and>
          CHR 0x5C \<notin> set d"
  then show "get_urls [b] domain = Inr [(''['' @ d @ '']'', text_of b)]"
    using assms by (simp add: get_urls_def href_of_def)
  have "CHR 0x5C \<notin> set (text_of b)"
    using h by (auto simp: list_ex_iff regex_special_def)
  then show "add_urls text [(''['' @ d @ '']'', text_of b)] =
              Inr (replace (text_of b) (text_of b @ '' ['' @ d @ '']'') text)"
    using h by (simp add: re_sub_def)
qed

theorem anchor_without_target_witness:
  "domain_name ''https://example.com/blog'' = Inr ''https://example.com'' \<and>
   named_anchor \<in> set (find_all ''a'' (Tag 0 ''[document]'' [] [named_anchor])) \<and>
   map_of (attrs_of named_anchor) ''href'' = None \<and>
   get_urls (find_all ''a'' (Tag 0 ''[document]'' [] [named_anchor])) ''https://example.com/blog'' = Inl KeyError \<and>
   prepare_text ''https://example.com/blog'' (Tag 0 ''[document]'' [] [named_anchor]) 80 = Inl KeyError \<and>
   map_of (attrs_of about_a) ''href'' = Some ''/a'' \<and>
   map_of (attrs_of empty_target_anchor) ''href'' = Some [] \<and>
   (\<exists>r t. get_urls [about_a, empty_target_anchor] ''https://example.com/blog'' = Inr r \<and>
          map_of r ''[https://example.com]'' = Some t) \<and>
   text_of empty_target_anchor = ''Home'' \<and>
   get_urls [empty_target_anchor] ''https://example.com/blog'' = Inr [(''[https://example.com]'', ''Home'')] \<and>
   add_urls ''Home page'' [(''[https://example.com]'', ''Home'')] = Inr ''Home [https://example.com] page''"
proof -
  have d: "domain_name ''https://example.com/blog'' = Inr ''https://example.com''"
    by (simp add: url_simps)
  have a: "named_anchor \<in> set (find_all ''a'' (Tag 0 ''[document]'' [] [named_anchor]))"
    by (simp add: named_anchor_def find_all_def)
  have n: "map_of (attrs_of named_anchor) ''href'' = None" by (simp add: named_anchor_def)
  have aa: "map_of (attrs_of about_a) ''href'' = Some ''/a''" by (simp add: about_a_def)
  have e: "map_of (attrs_of empty_target_anchor) ''href'' = Some []" by (simp add: empty_target_anchor_def)
  have t: "text_of empty_target_anchor = ''Home''" by (simp add: empty_target_anchor_def)
  have lit: "\<not> list_ex regex_special (text_of empty_target_anchor)"
    by (simp add: t regex_special_def)
  have nb: "CHR 0x5C \<notin> set ''https://example.com''" by simp
  have all: "\<forall>u\<in>set [about_a, empty_target_anchor]. map_of (attrs_of u) ''href'' \<noteq> None"
    using aa e by simp
  have rp: "replace ''Home'' ''Home [https://example.com]'' ''Home page'' = ''Home [https://example.com] page''"
    by (simp add: replace_def)
  show ?thesis
    using anchor_without_target[OF d, of named_anchor "Tag 0 ''[document]'' [] [named_anchor]" 80
        "[about_a, empty_target_anchor]" empty_target_anchor "''Home page''"]
      d a n aa e t lit nb all rp by simp
qed

text \<open>C8 as stated fails: an anchor that only has a \<open>name\<close> attribute raises.\<close>

theorem missing_target_counterexample:
  "map_of (attrs_of named_anchor) ''href'' = None \<and>
   get_urls [named_anchor] ''https://example.com/blog'' = Inl KeyError"
  by (simp add: named_anchor_def url_simps)

end
